theory Spec2Isabelle
  imports Complex_Main "HOL-Library.Word"
begin

unbundle bit_operations_syntax

section \<open>Compile-time constants of \<^verbatim>\<open>main.cpp\<close>\<close>

definition kMaxStates :: nat where
  "kMaxStates = 8"

definition kMaxSymbols :: nat where
  "kMaxSymbols = 7"

definition kOof :: nat where
  "kOof = 10000"

text \<open>The table is indexed \<^verbatim>\<open>[kSymbolCount][kStateCount]\<close>: rows are symbol counts.\<close>

definition kBusyBeaverNumbers :: "nat list list" where
  "kBusyBeaverNumbers =
    [[0, 0, 0, 0, 0, 0, 0, 0],
     [0, 1, kOof, kOof, kOof, kOof, kOof, kOof],
     [0, 1, 6, 21, 107, kOof, kOof, kOof],
     [0, 1, 38, kOof, kOof, kOof, kOof, kOof],
     [0, 1, kOof, kOof, kOof, kOof, kOof, kOof],
     [0, 1, kOof, kOof, kOof, kOof, kOof, kOof],
     [0, 1, kOof, kOof, kOof, kOof, kOof, kOof]]"

text \<open>\<^verbatim>\<open>std::bit_width\<close>: the number of bits needed to write the argument.\<close>

fun bit_width :: "nat \<Rightarrow> nat" where
  "bit_width n = (if n = 0 then 0 else Suc (bit_width (n div 2)))"

declare bit_width.simps [simp del]

definition kHaltState :: "nat \<Rightarrow> nat" where
  "kHaltState kStateCount = kStateCount"

text \<open>The subtraction is on \<^verbatim>\<open>size_t\<close>, a 64-bit word, so it wraps at zero.\<close>

definition kSymbolWidth :: "nat \<Rightarrow> nat" where
  "kSymbolWidth kSymbolCount =
     bit_width (if kSymbolCount = 1 then 1 else unat (of_nat kSymbolCount - 1 :: 64 word))"

definition kDirectionCount :: nat where
  "kDirectionCount = 2"

definition kDirectionWidth :: nat where
  "kDirectionWidth = bit_width (kDirectionCount - 1)"

definition kDirectionOffsets :: "int list" where
  "kDirectionOffsets = [- 1, 1]"

definition kInputs :: "nat \<Rightarrow> nat \<Rightarrow> nat" where
  "kInputs kStateCount kSymbolCount = kStateCount * kSymbolCount"

definition kOutputs :: "nat \<Rightarrow> nat \<Rightarrow> nat" where
  "kOutputs kStateCount kSymbolCount = kSymbolCount * kDirectionCount * (kStateCount + 1)"

definition kTransitionCount :: "nat \<Rightarrow> nat \<Rightarrow> nat" where
  "kTransitionCount kStateCount kSymbolCount = kInputs kStateCount kSymbolCount"

definition stepCount :: "nat \<Rightarrow> nat \<Rightarrow> nat" where
  "stepCount kStateCount kSymbolCount = kBusyBeaverNumbers ! kSymbolCount ! kStateCount"

definition kTapeSize :: "nat \<Rightarrow> nat \<Rightarrow> nat" where
  "kTapeSize kStateCount kSymbolCount =
     2 * (kBusyBeaverNumbers ! kSymbolCount ! kStateCount) + 2"

section \<open>The machine and its simulator\<close>

text \<open>
  \<^verbatim>\<open>symbol_t\<close>, \<^verbatim>\<open>state_t\<close>, \<^verbatim>\<open>input_t\<close> and \<^verbatim>\<open>output_t\<close> are all
  \<^verbatim>\<open>uint8_t\<close>; the head position is a \<^verbatim>\<open>size_t\<close>.
\<close>

type_synonym symbol_t = "8 word"
type_synonym state_t = "8 word"
type_synonym input_t = "8 word"
type_synonym output_t = "8 word"

record machine =
  kTransitions :: "output_t list"
  tape :: "symbol_t list"
  currentState :: state_t
  currentPosition :: "64 word"

text \<open>The constructor: the given table, a zeroed tape, state 0, head at the midpoint.\<close>

definition TuringMachine :: "nat \<Rightarrow> nat \<Rightarrow> output_t list \<Rightarrow> machine" where
  "TuringMachine kStateCount kSymbolCount transitions =
     \<lparr>kTransitions = transitions,
      tape = replicate (kTapeSize kStateCount kSymbolCount) 0,
      currentState = 0,
      currentPosition = of_nat (kTapeSize kStateCount kSymbolCount div 2)\<rparr>"

text \<open>
  Neither the C array nor \<^verbatim>\<open>std::array::operator[]\<close> checks its index. An access
  outside the array is undefined behaviour; the model makes it a fault.
\<close>

datatype fault = TapeOutOfBounds | TransitionOutOfBounds

definition outputDirectionMask :: output_t where
  "outputDirectionMask = 1"

definition outputSymbolMask :: output_t where
  "outputSymbolMask = 1"

text \<open>
  The index into the transition table (lines 66 to 71): the state shifted left by the
  symbol width, truncated to eight bits, exclusive-or the symbol under the head.
\<close>

definition packed_input :: "nat \<Rightarrow> machine \<Rightarrow> input_t" where
  "packed_input kSymbolCount m =
     push_bit (kSymbolWidth kSymbolCount) (currentState m)
       XOR (tape m ! unat (currentPosition m))"

text \<open>
  One pass through the body of the loop of \<^verbatim>\<open>run\<close>, lines 66 to 92. The offset is an
  \<^verbatim>\<open>int\<close> converted to \<^verbatim>\<open>size_t\<close>, so \<open>-1\<close> becomes \<open>2 ^ 64 - 1\<close> and the
  addition wraps.
\<close>

definition step :: "nat \<Rightarrow> machine \<Rightarrow> fault + machine" where
  "step kSymbolCount m =
     (if length (tape m) \<le> unat (currentPosition m) then Inl TapeOutOfBounds
      else
        let input = packed_input kSymbolCount m in
        if length (kTransitions m) \<le> unat input then Inl TransitionOutOfBounds
        else
          let fetched = kTransitions m ! unat input;
              positionOffset =
                (word_of_int (kDirectionOffsets ! unat (fetched AND outputDirectionMask))
                  :: 64 word);
              afterDirection = drop_bit kDirectionWidth fetched;
              written = afterDirection AND outputSymbolMask;
              nextState = drop_bit (kSymbolWidth kSymbolCount) afterDirection
          in Inr (m\<lparr>tape := (tape m)[unat (currentPosition m) := written],
                    currentState := nextState,
                    currentPosition := currentPosition m + positionOffset\<rparr>))"

text \<open>
  The loop of \<^verbatim>\<open>run\<close>. \<^verbatim>\<open>stepIndex\<close> is an \<^verbatim>\<open>int\<close> that stays below
  \<^verbatim>\<open>stepCount\<close>, at most 10000, so it is a natural number here.
\<close>

function run_loop :: "nat \<Rightarrow> nat \<Rightarrow> nat \<Rightarrow> machine \<Rightarrow> fault + int" where
  "run_loop kStateCount kSymbolCount stepIndex m =
     (if stepIndex < stepCount kStateCount kSymbolCount then
        (case step kSymbolCount m of
           Inl e \<Rightarrow> Inl e
         | Inr m' \<Rightarrow>
             if unat (currentState m') = kHaltState kStateCount
             then Inr (int stepIndex + 1)
             else run_loop kStateCount kSymbolCount (stepIndex + 1) m')
      else Inr (- 1))"
  by pat_completeness auto
termination
  by (relation "measure (\<lambda>(n, s, i, m). stepCount n s - i)") auto

declare run_loop.simps [simp del]

definition run :: "nat \<Rightarrow> nat \<Rightarrow> machine \<Rightarrow> fault + int" where
  "run kStateCount kSymbolCount m = run_loop kStateCount kSymbolCount 0 m"

text \<open>
  The machine after \<open>k\<close> passes through the loop body, whatever its state: the
  iteration that \<^verbatim>\<open>run\<close> performs, without the test for the halt state.
\<close>

fun after_steps :: "nat \<Rightarrow> nat \<Rightarrow> machine \<Rightarrow> fault + machine" where
  "after_steps kSymbolCount 0 m = Inr m"
| "after_steps kSymbolCount (Suc k) m =
     (case step kSymbolCount m of
        Inl e \<Rightarrow> Inl e
      | Inr m' \<Rightarrow> after_steps kSymbolCount k m')"

text \<open>The machine is in the halt state after its \<open>k\<close>-th step.\<close>

definition halted_after :: "nat \<Rightarrow> nat \<Rightarrow> machine \<Rightarrow> nat \<Rightarrow> bool" where
  "halted_after kStateCount kSymbolCount m k =
     (case after_steps kSymbolCount k m of
        Inl e \<Rightarrow> False
      | Inr m' \<Rightarrow> unat (currentState m') = kHaltState kStateCount)"

text \<open>The machine enters the halt state on its \<open>k\<close>-th step and on no earlier one.\<close>

definition first_halt :: "nat \<Rightarrow> nat \<Rightarrow> machine \<Rightarrow> nat \<Rightarrow> bool" where
  "first_halt kStateCount kSymbolCount m k =
     (0 < k \<and> halted_after kStateCount kSymbolCount m k
      \<and> (\<forall>j \<in> {1..<k}. \<not> halted_after kStateCount kSymbolCount m j))"

text \<open>
  A transition table of the right size whose entries all lie below \<^verbatim>\<open>kOutputs\<close>.
\<close>

definition table_ok :: "nat \<Rightarrow> nat \<Rightarrow> output_t list \<Rightarrow> bool" where
  "table_ok kStateCount kSymbolCount transitions =
     (length transitions = kTransitionCount kStateCount kSymbolCount
      \<and> (\<forall>x \<in> set transitions. unat x < kOutputs kStateCount kSymbolCount))"

definition binary_tape :: "symbol_t list \<Rightarrow> bool" where
  "binary_tape t = (\<forall>c \<in> set t. c = 0 \<or> c = 1)"

text \<open>
  What holds of the machine when \<open>k\<close> steps have been taken: the table is the one it
  was built from, the tape has its full size and holds only 0 and 1, the state is at most
  the halt state, and the head is within \<open>k\<close> cells of the midpoint.
\<close>

definition loop_inv :: "nat \<Rightarrow> nat \<Rightarrow> output_t list \<Rightarrow> nat \<Rightarrow> machine \<Rightarrow> bool" where
  "loop_inv kStateCount kSymbolCount transitions k m =
     (kTransitions m = transitions
      \<and> length (tape m) = kTapeSize kStateCount kSymbolCount
      \<and> binary_tape (tape m)
      \<and> unat (currentState m) \<le> kStateCount
      \<and> stepCount kStateCount kSymbolCount + 1 \<le> unat (currentPosition m) + k
      \<and> unat (currentPosition m) \<le> stepCount kStateCount kSymbolCount + 1 + k)"

section \<open>The step of the design\<close>

text \<open>
  The step as the design describes it, on unbounded numbers: the symbol width
  \<open>ceil(log2(max(S,2)))\<close>, the input \<open>(state << symbol_width) | sym\<close>, the direction
  bit \<open>out & 1\<close>, the written symbol \<open>(out >> 1) & ((1 << symbol_width) - 1)\<close> and the
  next state \<open>out >> (1 + symbol_width)\<close>. The design does not say what a step does with
  the head off the tape or the input off the table; here it has no result.
\<close>

definition symbol_width :: "nat \<Rightarrow> nat" where
  "symbol_width S = nat \<lceil>log 2 (real (max S 2))\<rceil>"

record design_config =
  d_table :: "nat list"
  d_tape :: "nat list"
  d_head :: int
  d_state :: nat

definition design_step :: "nat \<Rightarrow> design_config \<Rightarrow> design_config option" where
  "design_step w c =
     (if d_head c < 0 \<or> int (length (d_tape c)) \<le> d_head c then None
      else
        let sym = d_tape c ! nat (d_head c);
            input = push_bit w (d_state c) OR sym
        in if length (d_table c) \<le> input then None
        else
          let out = d_table c ! input;
              dir_bit = out AND 1;
              offset = (if dir_bit \<noteq> 0 then 1 else - 1);
              write_sym = drop_bit 1 out AND (push_bit w 1 - 1);
              next_state = drop_bit (1 + w) out
          in Some (c\<lparr>d_tape := (d_tape c)[nat (d_head c) := write_sym],
                     d_head := d_head c + offset,
                     d_state := next_state\<rparr>))"

definition design_halted :: "nat \<Rightarrow> design_config \<Rightarrow> bool" where
  "design_halted N c = (d_state c = N)"

text \<open>The machine of the code read as a configuration of the design.\<close>

definition abs_machine :: "machine \<Rightarrow> design_config" where
  "abs_machine m =
     \<lparr>d_table = map unat (kTransitions m),
      d_tape = map unat (tape m),
      d_head = uint (currentPosition m),
      d_state = unat (currentState m)\<rparr>"

text \<open>
  The machine of the design before its first step: the table, a tape of
  \<open>2 * step_budget + 2\<close> zeros, the head at the midpoint, state 0. Then the design's
  steps iterated, and what it is for the design's machine to enter the halt state.
\<close>

definition design_machine :: "nat \<Rightarrow> nat list \<Rightarrow> design_config" where
  "design_machine step_budget table =
     \<lparr>d_table = table,
      d_tape = replicate (2 * step_budget + 2) 0,
      d_head = int ((2 * step_budget + 2) div 2),
      d_state = 0\<rparr>"

fun design_after_steps :: "nat \<Rightarrow> nat \<Rightarrow> design_config \<Rightarrow> design_config option" where
  "design_after_steps w 0 c = Some c"
| "design_after_steps w (Suc k) c =
     (case design_step w c of None \<Rightarrow> None | Some c' \<Rightarrow> design_after_steps w k c')"

definition design_halted_after :: "nat \<Rightarrow> nat \<Rightarrow> design_config \<Rightarrow> nat \<Rightarrow> bool" where
  "design_halted_after N w c k =
     (case design_after_steps w k c of None \<Rightarrow> False | Some c' \<Rightarrow> design_halted N c')"

definition design_first_halt :: "nat \<Rightarrow> nat \<Rightarrow> design_config \<Rightarrow> nat \<Rightarrow> bool" where
  "design_first_halt N w c k =
     (0 < k \<and> design_halted_after N w c k
      \<and> (\<forall>j \<in> {1..<k}. \<not> design_halted_after N w c j))"

text \<open>
  The output word the design assigns to a transition: bit 0 the direction, the next
  \<open>symbol_width\<close> bits the written symbol, the remaining high bits the next state.
\<close>

definition design_output :: "nat \<Rightarrow> nat \<Rightarrow> nat \<Rightarrow> nat \<Rightarrow> nat" where
  "design_output w dir symb st = dir OR push_bit 1 symb OR push_bit (1 + w) st"

section \<open>The enumerator\<close>

text \<open>
  Modelled from the spec: \<^verbatim>\<open>gcem.hpp\<close>, which computes \<^verbatim>\<open>kUniqueMachineCount\<close> as
  \<^verbatim>\<open>gcem::round(gcem::pow(kOutputs, kInputs))\<close>, is not among the sources. The design
  gives \<open>machine_count = output_count ^ input_count\<close>.
\<close>

definition kUniqueMachineCount :: "nat \<Rightarrow> nat \<Rightarrow> nat" where
  "kUniqueMachineCount kStateCount kSymbolCount =
     kOutputs kStateCount kSymbolCount ^ kInputs kStateCount kSymbolCount"

text \<open>
  The inner loop of \<^verbatim>\<open>testMachines\<close>, lines 121 to 129: the odometer. The index stays
  below \<^verbatim>\<open>kTransitionCount\<close>, the size of the array. \<^verbatim>\<open>kOutputs\<close> is at least 2 for
  every symbol count from 1 on, so \<^verbatim>\<open>kOutputs - 1\<close> does not wrap.
\<close>

function advance_transitions :: "nat \<Rightarrow> nat \<Rightarrow> nat \<Rightarrow> output_t list \<Rightarrow> output_t list" where
  "advance_transitions kStateCount kSymbolCount input_index transitions =
     (if input_index < kTransitionCount kStateCount kSymbolCount then
        (if unat (transitions ! input_index) = kOutputs kStateCount kSymbolCount - 1
         then advance_transitions kStateCount kSymbolCount (input_index + 1)
                (transitions[input_index := 0])
         else transitions[input_index := transitions ! input_index + 1])
      else transitions)"
  by pat_completeness auto
termination
  by (relation "measure (\<lambda>(n, s, i, t). kTransitionCount n s - i)") auto

declare advance_transitions.simps [simp del]

text \<open>
  One record for each pass through the outer loop of \<^verbatim>\<open>testMachines\<close>: the first four
  fields are the first four columns of the line written to the results file. The fifth
  column is the double \<^verbatim>\<open>(100.0 * haltingCount) / (double(haltingCount) +
  double(nonHaltingCount))\<close>; the record keeps the two counters it is computed from, and
  the table the machine was built from.
\<close>

record row =
  state_count :: nat
  symbol_count :: nat
  machine_id :: nat
  steps_to_halt :: int
  transitions_used :: "output_t list"
  haltingCount_after :: "32 word"
  nonHaltingCount_after :: "32 word"

text \<open>
  The divisor of the halting probability. The counters are \<^verbatim>\<open>int\<close>, read here as
  signed 32-bit values; each converts to a double exactly, and so does their sum.
\<close>

definition probability_divisor :: "32 word \<Rightarrow> 32 word \<Rightarrow> int" where
  "probability_divisor haltingCount nonHaltingCount = sint haltingCount + sint nonHaltingCount"

text \<open>
  The outer loop of \<^verbatim>\<open>testMachines\<close>, lines 111 to 130. The counters are \<^verbatim>\<open>int\<close>
  references; \<^verbatim>\<open>++\<close> on an \<^verbatim>\<open>int\<close> at its maximum is undefined in C++, and the
  model takes the two's complement result that the usual targets produce. The result is
  the rows in the order written and the counters as the loop leaves them.
\<close>

function testMachines_loop ::
  "nat \<Rightarrow> nat \<Rightarrow> nat \<Rightarrow> output_t list \<Rightarrow> 32 word \<Rightarrow> 32 word
     \<Rightarrow> fault + (row list \<times> 32 word \<times> 32 word)" where
  "testMachines_loop kStateCount kSymbolCount machineId transitions haltingCount nonHaltingCount =
     (if machineId < kUniqueMachineCount kStateCount kSymbolCount then
        (case run kStateCount kSymbolCount (TuringMachine kStateCount kSymbolCount transitions) of
           Inl e \<Rightarrow> Inl e
         | Inr steps \<Rightarrow>
             let haltingCount' = (if steps > 0 then haltingCount + 1 else haltingCount);
                 nonHaltingCount' = (if steps > 0 then nonHaltingCount else nonHaltingCount + 1);
                 written = \<lparr>state_count = kStateCount, symbol_count = kSymbolCount,
                            machine_id = machineId, steps_to_halt = steps,
                            transitions_used = transitions,
                            haltingCount_after = haltingCount',
                            nonHaltingCount_after = nonHaltingCount'\<rparr>
             in (case testMachines_loop kStateCount kSymbolCount (machineId + 1)
                        (advance_transitions kStateCount kSymbolCount 0 transitions)
                        haltingCount' nonHaltingCount' of
                   Inl e \<Rightarrow> Inl e
                 | Inr (rows, h, n) \<Rightarrow> Inr (written # rows, h, n)))
      else Inr ([], haltingCount, nonHaltingCount))"
  by pat_completeness auto
termination
  by (relation "measure (\<lambda>(n, s, i, t, h, c). kUniqueMachineCount n s - i)") auto

declare testMachines_loop.simps [simp del]

text \<open>\<^verbatim>\<open>testMachines\<close>: the table starts as \<^verbatim>\<open>{ 0 }\<close>, all zero.\<close>

definition testMachines ::
  "nat \<Rightarrow> nat \<Rightarrow> 32 word \<Rightarrow> 32 word \<Rightarrow> fault + (row list \<times> 32 word \<times> 32 word)" where
  "testMachines kStateCount kSymbolCount haltingCount nonHaltingCount =
     testMachines_loop kStateCount kSymbolCount 0
       (replicate (kTransitionCount kStateCount kSymbolCount) 0) haltingCount nonHaltingCount"

text \<open>
  The table as a number, as the design reads it: little-endian in base \<open>output_count\<close>,
  digit \<open>i\<close> at input \<open>i\<close>.
\<close>

definition odometer_digits :: "nat \<Rightarrow> nat \<Rightarrow> nat \<Rightarrow> nat list" where
  "odometer_digits base len n = map (\<lambda>i. (n div base ^ i) mod base) [0..<len]"

fun odometer_value :: "nat \<Rightarrow> nat list \<Rightarrow> nat" where
  "odometer_value base [] = 0"
| "odometer_value base (d # ds) = d + base * odometer_value base ds"

section \<open>The driver\<close>

text \<open>
  \<^verbatim>\<open>main\<close>. Whether the results file opens is the one thing the environment decides.
  \<^verbatim>\<open>main\<close> does not test the stream after \<^verbatim>\<open>open\<close>: on a failed stream every
  \<^verbatim>\<open>operator<<\<close> does nothing, so nothing is written. Nothing goes to the standard
  error stream; the standard output receives the two counters (and their quotient), and the
  return value is the literal 0.
\<close>

definition csv_header :: string where
  "csv_header = ''state_count,symbol_count,machine_id,steps_to_halt,halting_probability''"

definition kSymbolCount_main :: nat where
  "kSymbolCount_main = 2"

text \<open>The four calls of \<^verbatim>\<open>testMachines\<close>, sharing the two counters.\<close>

definition main_passes :: "fault + (row list \<times> 32 word \<times> 32 word)" where
  "main_passes =
     (case testMachines 1 kSymbolCount_main 0 0 of
        Inl e \<Rightarrow> Inl e
      | Inr (rows1, h1, n1) \<Rightarrow>
     (case testMachines 2 kSymbolCount_main h1 n1 of
        Inl e \<Rightarrow> Inl e
      | Inr (rows2, h2, n2) \<Rightarrow>
     (case testMachines 3 kSymbolCount_main h2 n2 of
        Inl e \<Rightarrow> Inl e
      | Inr (rows3, h3, n3) \<Rightarrow>
     (case testMachines 4 kSymbolCount_main h3 n3 of
        Inl e \<Rightarrow> Inl e
      | Inr (rows4, h4, n4) \<Rightarrow> Inr (rows1 @ rows2 @ rows3 @ rows4, h4, n4)))))"

record process_result =
  exit_code :: int
  results_file :: "(string \<times> row list) option"
  standard_output :: "32 word \<times> 32 word"
  standard_error :: "string list"

definition main :: "bool \<Rightarrow> fault + process_result" where
  "main open_ok =
     (case main_passes of
        Inl e \<Rightarrow> Inl e
      | Inr (rows, haltingCount, nonHaltingCount) \<Rightarrow>
          Inr \<lparr>exit_code = 0,
               results_file = (if open_ok then Some (csv_header, rows) else None),
               standard_output = (haltingCount, nonHaltingCount),
               standard_error = []\<rparr>)"

section \<open>Auxiliary notions for the proofs\<close>

text \<open>
  What any step preserves, whatever the table: a tape of zeros and ones, a state that a
  shift by one does not truncate, and a head within \<open>k\<close> cells of the midpoint.
\<close>

definition head_inv :: "nat \<Rightarrow> nat \<Rightarrow> machine \<Rightarrow> bool" where
  "head_inv B k m =
     (binary_tape (tape m) \<and> unat (currentState m) < 128
      \<and> B + 1 \<le> unat (currentPosition m) + k \<and> unat (currentPosition m) \<le> B + 1 + k)"

text \<open>The odometer on a list of digits: add one to the lowest digit, carrying upwards.\<close>

fun inc_digits :: "nat \<Rightarrow> nat list \<Rightarrow> nat list" where
  "inc_digits b [] = []"
| "inc_digits b (d # ds) = (if d = b - 1 then 0 # inc_digits b ds else (d + 1) # ds)"

text \<open>
  Each row's counters come from the ones before it by one increment: of the halting
  counter when the machine halted, of the other one when it did not.
\<close>

fun counters_chain :: "32 word \<Rightarrow> 32 word \<Rightarrow> row list \<Rightarrow> bool" where
  "counters_chain h n [] = True"
| "counters_chain h n (r # rs) =
     ((haltingCount_after r, nonHaltingCount_after r) =
        (if steps_to_halt r > 0 then (h + 1, n) else (h, n + 1))
      \<and> counters_chain (haltingCount_after r) (nonHaltingCount_after r) rs)"

definition final_counters :: "32 word \<Rightarrow> 32 word \<Rightarrow> row list \<Rightarrow> 32 word \<times> 32 word" where
  "final_counters h n rows =
     (if rows = [] then (h, n)
      else (haltingCount_after (last rows), nonHaltingCount_after (last rows)))"

text \<open>The halting counter as it stood before row \<open>i\<close> was written.\<close>

definition halting_before :: "32 word \<Rightarrow> row list \<Rightarrow> nat \<Rightarrow> 32 word" where
  "halting_before h rows i = (if i = 0 then h else haltingCount_after (rows ! (i - 1)))"

text \<open>
  Row \<open>j\<close> of the pass for \<open>N\<close> states: its table is the number \<open>j\<close> in base
  \<^verbatim>\<open>kOutputs\<close>, and its step count is what \<^verbatim>\<open>run\<close> returns on that table.
\<close>

definition row_ok :: "nat \<Rightarrow> nat \<Rightarrow> row \<Rightarrow> bool" where
  "row_ok N j r =
     (state_count r = N \<and> symbol_count r = 2 \<and> machine_id r = j
      \<and> length (transitions_used r) = kTransitionCount N 2
      \<and> map unat (transitions_used r) = odometer_digits (kOutputs N 2) (kInputs N 2) j
      \<and> run N 2 (TuringMachine N 2 (transitions_used r)) = Inr (steps_to_halt r))"

text \<open>The rows of the whole program, and what the process reports.\<close>

definition main_rows :: "row list" where
  "main_rows = (case main_passes of Inl e \<Rightarrow> [] | Inr (rows, h, n) \<Rightarrow> rows)"

definition exit_status :: "bool \<Rightarrow> int option" where
  "exit_status open_ok = (case main open_ok of Inl e \<Rightarrow> None | Inr r \<Rightarrow> Some (exit_code r))"

definition diagnostics :: "bool \<Rightarrow> string list option" where
  "diagnostics open_ok =
     (case main open_ok of Inl e \<Rightarrow> None | Inr r \<Rightarrow> Some (standard_error r))"


section \<open>Constants for the binary alphabet\<close>

lemma kSymbolWidth_2: "kSymbolWidth 2 = 1"
  by (simp add: kSymbolWidth_def bit_width.simps)

lemma kDirectionWidth_1: "kDirectionWidth = 1"
  by (simp add: kDirectionWidth_def kDirectionCount_def bit_width.simps)

lemma symbol_width_2: "symbol_width 2 = 1"
  by (simp add: symbol_width_def)

lemma kInputs_2: "kInputs N 2 = 2 * N"
  by (simp add: kInputs_def)

lemma kOutputs_2: "kOutputs N 2 = 4 * (N + 1)"
  by (simp add: kOutputs_def kDirectionCount_def)

lemma stepCount_le: 
  assumes "N < kMaxStates" 
  shows "stepCount N 2 \<le> 10000"
proof -
  from assms have "N = 0 \<or> N = 1 \<or> N = 2 \<or> N = 3 \<or> N = 4 \<or> N = 5 \<or> N = 6 \<or> N = 7"
    unfolding kMaxStates_def by arith
  then show ?thesis
    by (auto simp: stepCount_def kBusyBeaverNumbers_def kOof_def)
qed

section \<open>Facts about bytes and positions\<close>

lemma and_one_cases: "(x :: 8 word) AND 1 = 0 \<or> x AND 1 = 1"
  by (cases "even x") (simp_all add: and_one_eq even_iff_mod_2_eq_zero odd_iff_mod_2_eq_one)

lemma unat_pack:
  assumes "unat (s :: 8 word) < 128" "c = 0 \<or> c = 1"
  shows "unat (push_bit 1 s XOR c) = 2 * unat s + unat c"
proof -
  from assms(2) show ?thesis
  proof
    assume "c = 0" then show ?thesis using assms(1) by (simp add: unat_word_ariths)
  next
    assume "c = 1"
    then show ?thesis using assms(1)
      by (simp add: xor_one_eq unat_word_ariths)
  qed
qed

lemma unat_drop2: "unat (drop_bit 1 (drop_bit 1 (x :: 8 word))) = unat x div 4"
  by (simp add: unat_drop_bit_eq drop_bit_eq_div unat_div div_mult2_eq)

lemma pos_left: "0 < unat (p :: 64 word) \<Longrightarrow> unat (p + word_of_int (- 1)) = unat p - 1"
  by (simp add: unat_minus_one unat_gt_0)

lemma pos_right: "unat (p :: 64 word) + 1 < 2 ^ 64 \<Longrightarrow> unat (p + word_of_int 1) = unat p + 1"
  by (simp add: unat_word_ariths)

lemma binary_tape_update:
  "binary_tape t \<Longrightarrow> v = 0 \<or> v = 1 \<Longrightarrow> binary_tape (t[i := v])"
  unfolding binary_tape_def using set_update_subset_insert [of t i v] by auto

lemma offset_cases:
  "(word_of_int (kDirectionOffsets ! unat ((x :: 8 word) AND outputDirectionMask)) :: 64 word) = word_of_int (- 1)
   \<or> (word_of_int (kDirectionOffsets ! unat (x AND outputDirectionMask)) :: 64 word) = word_of_int 1"
  using and_one_cases [of x] by (auto simp: outputDirectionMask_def kDirectionOffsets_def)

section \<open>The loop invariant\<close>

lemma step_inv:
  assumes N: "N < kMaxStates"
    and tbl: "table_ok N 2 tbl"
    and inv: "loop_inv N 2 tbl k m"
    and k: "k < stepCount N 2"
    and ns: "unat (currentState m) \<noteq> N"
  shows "\<exists>m'. step 2 m = Inr m' \<and> loop_inv N 2 tbl (Suc k) m'
           \<and> unat (packed_input 2 m) < kInputs N 2"
proof -
  let ?p = "unat (currentPosition m)"
  let ?B = "stepCount N 2"
  have B: "?B \<le> 10000" using N by (rule stepCount_le)
  have len: "length (tape m) = 2 * ?B + 2"
    using inv by (simp add: loop_inv_def kTapeSize_def stepCount_def)
  have plo: "?B + 1 \<le> ?p + k" and phi: "?p \<le> ?B + 1 + k"
    using inv by (simp_all add: loop_inv_def)
  have pin: "?p < length (tape m)" using len phi k by arith
  have ppos: "0 < ?p" using plo k by arith
  have bt: "binary_tape (tape m)" using inv by (simp add: loop_inv_def)
  have sym: "tape m ! ?p = 0 \<or> tape m ! ?p = 1"
    using bt pin unfolding binary_tape_def by (meson nth_mem)
  have st: "unat (currentState m) < N" using inv ns by (simp add: loop_inv_def)
  have N8: "N < 8" using N by (simp add: kMaxStates_def)
  have inp: "unat (packed_input 2 m) = 2 * unat (currentState m) + unat (tape m ! ?p)"
    unfolding packed_input_def kSymbolWidth_2
    by (rule unat_pack) (use st N8 sym in auto)
  have symle: "unat (tape m ! ?p) \<le> 1" using sym by auto
  have inlt: "unat (packed_input 2 m) < 2 * N" using inp st symle by arith
  have tl: "length (kTransitions m) = 2 * N"
    using inv tbl by (simp add: loop_inv_def table_ok_def kTransitionCount_def kInputs_2)
  let ?f = "kTransitions m ! unat (packed_input 2 m)"
  have "?f \<in> set tbl" using inv inlt tl by (auto simp: loop_inv_def)
  then have f: "unat ?f < 4 * (N + 1)" using tbl by (simp add: table_ok_def kOutputs_2)
  let ?w = "drop_bit kDirectionWidth ?f AND outputSymbolMask"
  let ?s' = "drop_bit (kSymbolWidth 2) (drop_bit kDirectionWidth ?f)"
  let ?off = "word_of_int (kDirectionOffsets ! unat (?f AND outputDirectionMask)) :: 64 word"
  let ?m' = "m\<lparr>tape := (tape m)[?p := ?w], currentState := ?s',
                 currentPosition := currentPosition m + ?off\<rparr>"
  have stp: "step 2 m = Inr ?m'"
    using pin inlt tl by (simp add: step_def Let_def)
  have w: "?w = 0 \<or> ?w = 1"
    unfolding outputSymbolMask_def by (rule and_one_cases)
  have s': "unat ?s' \<le> N"
    unfolding kSymbolWidth_2 kDirectionWidth_1 unat_drop2 using f by arith
  have off: "?off = word_of_int (- 1) \<or> ?off = word_of_int 1" by (rule offset_cases)
  have pnew: "unat (currentPosition m + ?off) = ?p - 1 \<or> unat (currentPosition m + ?off) = ?p + 1"
  proof -
    have "?p + 1 < 2 ^ 64" using pin len B by simp
    then show ?thesis using off ppos pos_left [of "currentPosition m"] pos_right [of "currentPosition m"]
      by metis
  qed
  have "loop_inv N 2 tbl (Suc k) ?m'"
    unfolding loop_inv_def
    using inv len bt w s' pnew plo phi ppos
    by (auto simp: loop_inv_def kTapeSize_def stepCount_def binary_tape_update)
  then show ?thesis using stp inlt by (auto simp: kInputs_2)
qed

lemma fresh_inv:
  assumes "N < kMaxStates"
  shows "loop_inv N 2 tbl 0 (TuringMachine N 2 tbl)"
proof -
  have B: "stepCount N 2 \<le> 10000" using assms by (rule stepCount_le)
  have "unat (of_nat ((2 * stepCount N 2 + 2) div 2) :: 64 word) = stepCount N 2 + 1"
    using B by (simp only: unat_of_nat) simp
  then show ?thesis
    by (simp add: loop_inv_def TuringMachine_def kTapeSize_def stepCount_def binary_tape_def)
qed

lemma fresh_state: "0 < N \<Longrightarrow> unat (currentState (TuringMachine N S tbl)) \<noteq> N"
  by (simp add: TuringMachine_def)

lemma halted_after_0: "halted_after N S m 0 = (unat (currentState m) = N)"
  by (simp add: halted_after_def kHaltState_def)

lemma halted_after_Suc:
  "step S m = Inr m' \<Longrightarrow> halted_after N S m (Suc k) = halted_after N S m' k"
  by (simp add: halted_after_def)

lemma first_halt_1:
  "step S m = Inr m' \<Longrightarrow> unat (currentState m') = N \<Longrightarrow> first_halt N S m k = (k = 1)"
proof -
  assume a: "step S m = Inr m'" "unat (currentState m') = N"
  have h1: "halted_after N S m 1" using a halted_after_Suc [of S m m' N 0] by (simp add: halted_after_0)
  show ?thesis
  proof (cases "k = 1")
    case True then show ?thesis using h1 by (simp add: first_halt_def)
  next
    case False
    then have "k = 0 \<or> 1 \<in> {1..<k}" by auto
    then show ?thesis using False h1 unfolding first_halt_def by blast
  qed
qed

lemma first_halt_Suc:
  assumes "step S m = Inr m'" "unat (currentState m') \<noteq> N"
  shows "first_halt N S m (Suc k) = first_halt N S m' k"
proof -
  have h: "\<And>j. halted_after N S m (Suc j) = halted_after N S m' j"
    using assms(1) by (rule halted_after_Suc)
  have z: "\<not> halted_after N S m' 0" using assms(2) by (simp add: halted_after_0)
  have "(\<forall>j\<in>{1..<Suc k}. \<not> halted_after N S m j) = (\<forall>j\<in>{0..<k}. \<not> halted_after N S m' j)"
  proof
    assume l: "\<forall>j\<in>{1..<Suc k}. \<not> halted_after N S m j"
    show "\<forall>j\<in>{0..<k}. \<not> halted_after N S m' j"
    proof
      fix j assume "j \<in> {0..<k}"
      then have "Suc j \<in> {1..<Suc k}" by simp
      with l have "\<not> halted_after N S m (Suc j)" by blast
      then show "\<not> halted_after N S m' j" by (simp add: h)
    qed
  next
    assume r: "\<forall>j\<in>{0..<k}. \<not> halted_after N S m' j"
    show "\<forall>j\<in>{1..<Suc k}. \<not> halted_after N S m j"
    proof
      fix j assume j: "j \<in> {1..<Suc k}"
      then obtain i where i: "j = Suc i" "i \<in> {0..<k}" by (cases j) auto
      with r have "\<not> halted_after N S m' i" by blast
      then show "\<not> halted_after N S m j" using i by (simp add: h)
    qed
  qed
  moreover have "(\<forall>j\<in>{0..<k}. \<not> halted_after N S m' j) = (\<forall>j\<in>{1..<k}. \<not> halted_after N S m' j)"
  proof
    assume "\<forall>j\<in>{0..<k}. \<not> halted_after N S m' j"
    then show "\<forall>j\<in>{1..<k}. \<not> halted_after N S m' j" by simp
  next
    assume r: "\<forall>j\<in>{1..<k}. \<not> halted_after N S m' j"
    show "\<forall>j\<in>{0..<k}. \<not> halted_after N S m' j"
    proof
      fix j assume "j \<in> {0..<k}"
      then have "j = 0 \<or> j \<in> {1..<k}" by auto
      then show "\<not> halted_after N S m' j" using z r by blast
    qed
  qed
  moreover have "k = 0 \<Longrightarrow> \<not> halted_after N S m' k" using z by simp
  ultimately show ?thesis
    unfolding first_halt_def h by (cases "k = 0") auto
qed

lemma never_halt_Suc:
  assumes "step S m = Inr m'" "unat (currentState m') \<noteq> N"
  shows "(\<forall>k\<in>{1..Suc d}. \<not> halted_after N S m k) = (\<forall>k\<in>{1..d}. \<not> halted_after N S m' k)"
proof -
  have h: "\<And>j. halted_after N S m (Suc j) = halted_after N S m' j"
    using assms(1) by (rule halted_after_Suc)
  have z: "\<not> halted_after N S m' 0" using assms(2) by (simp add: halted_after_0)
  show ?thesis
  proof
    assume l: "\<forall>k\<in>{1..Suc d}. \<not> halted_after N S m k"
    show "\<forall>k\<in>{1..d}. \<not> halted_after N S m' k"
    proof
      fix j assume "j \<in> {1..d}"
      then have "Suc j \<in> {1..Suc d}" by simp
      with l have "\<not> halted_after N S m (Suc j)" by blast
      then show "\<not> halted_after N S m' j" by (simp add: h)
    qed
  next
    assume r: "\<forall>k\<in>{1..d}. \<not> halted_after N S m' k"
    show "\<forall>k\<in>{1..Suc d}. \<not> halted_after N S m k"
    proof
      fix j assume j: "j \<in> {1..Suc d}"
      then obtain i where i0: "j = Suc i" "i \<le> d" by (cases j) auto
      then have i: "j = Suc i" "i = 0 \<or> i \<in> {1..d}" by auto
      with r z have "\<not> halted_after N S m' i" by blast
      then show "\<not> halted_after N S m j" using i by (simp add: h)
    qed
  qed
qed

lemma run_loop_char:
  assumes N: "N < kMaxStates" and tbl: "table_ok N 2 tbl"
  shows "stepCount N 2 - i = d \<Longrightarrow> i \<le> stepCount N 2 \<Longrightarrow> loop_inv N 2 tbl i m
     \<Longrightarrow> unat (currentState m) \<noteq> N
     \<Longrightarrow> \<exists>r. run_loop N 2 i m = Inr r
           \<and> (r = - 1 \<or> (int i + 1 \<le> r \<and> r \<le> int (stepCount N 2)))
           \<and> (\<forall>k. (r = int (i + k)) = (first_halt N 2 m k \<and> i + k \<le> stepCount N 2))
           \<and> ((r = - 1) = (\<forall>k\<in>{1..stepCount N 2 - i}. \<not> halted_after N 2 m k))"
proof (induction d arbitrary: i m)
  case 0
  then have i: "i = stepCount N 2" by simp
  have r: "run_loop N 2 i m = Inr (- 1)" by (subst run_loop.simps) (simp add: i)
  have nf: "\<not> (first_halt N 2 m k \<and> i + k \<le> stepCount N 2)" for k
    using i by (cases k) (simp_all add: first_halt_def)
  have e: "{1..stepCount N 2 - i} = {}" using i by simp
  have "((- 1 :: int) = int (i + k)) = (first_halt N 2 m k \<and> i + k \<le> stepCount N 2)" for k
    using nf [of k] by simp
  then have "(\<forall>k. ((- 1 :: int) = int (i + k)) = (first_halt N 2 m k \<and> i + k \<le> stepCount N 2))
      \<and> (((- 1 :: int) = - 1) = (\<forall>k\<in>{1..stepCount N 2 - i}. \<not> halted_after N 2 m k))"
    unfolding e by simp
  then show ?case unfolding r by blast
next
  case (Suc d)
  let ?B = "stepCount N 2"
  from Suc.prems have lt: "i < ?B" by simp
  from step_inv [OF N tbl Suc.prems(3) lt Suc.prems(4)] obtain m'
    where st: "step 2 m = Inr m'" and inv': "loop_inv N 2 tbl (Suc i) m'" by blast
  show ?case
  proof (cases "unat (currentState m') = N")
    case True
    have r: "run_loop N 2 i m = Inr (int i + 1)"
      by (subst run_loop.simps) (simp add: lt st True kHaltState_def)
    have fh: "\<And>k. first_halt N 2 m k = (k = 1)" using st True by (rule first_halt_1)
    have h1: "halted_after N 2 m 1" using fh [of 1] by (simp add: first_halt_def)
    have "1 \<in> {1..?B - i}" using lt by simp
    with h1 have nh: "\<not> (\<forall>k\<in>{1..?B - i}. \<not> halted_after N 2 m k)" by blast
    have b: "(int i + 1 = int (i + k)) = (first_halt N 2 m k \<and> i + k \<le> ?B)" for k
      unfolding fh using lt by auto
    have a: "int i + 1 \<le> int i + 1 \<and> int i + 1 \<le> int ?B" using lt by simp
    have c: "(int i + 1 = - 1) = (\<forall>k\<in>{1..?B - i}. \<not> halted_after N 2 m k)"
      using nh by simp
    show ?thesis unfolding r using a b c by blast
  next
    case False
    have r: "run_loop N 2 i m = run_loop N 2 (Suc i) m'"
      by (subst run_loop.simps) (simp add: lt st False kHaltState_def)
    have d: "?B - Suc i = d" using Suc.prems(1) by simp
    have le: "Suc i \<le> ?B" using lt by simp
    from Suc.IH [OF d le inv' False] obtain r' where
      r': "run_loop N 2 (Suc i) m' = Inr r'"
      and rng: "r' = - 1 \<or> (int (Suc i) + 1 \<le> r' \<and> r' \<le> int ?B)"
      and ex: "\<And>k. (r' = int (Suc i + k)) = (first_halt N 2 m' k \<and> Suc i + k \<le> ?B)"
      and nv: "(r' = - 1) = (\<forall>k\<in>{1..?B - Suc i}. \<not> halted_after N 2 m' k)"
      by blast
    have fs: "\<And>k. first_halt N 2 m (Suc k) = first_halt N 2 m' k"
      using st False by (rule first_halt_Suc)
    have a: "r' = - 1 \<or> (int i + 1 \<le> r' \<and> r' \<le> int ?B)" using rng by auto
    have b: "(r' = int (i + k)) = (first_halt N 2 m k \<and> i + k \<le> ?B)" for k
    proof (cases k)
      case 0
      have "r' \<noteq> int i" using rng by auto
      then show ?thesis using 0 by (simp add: first_halt_def)
    next
      case (Suc k')
      then show ?thesis using ex [of k'] fs [of k'] by simp
    qed
    have "?B - i = Suc (?B - Suc i)" using lt by simp
    then have c: "(r' = - 1) = (\<forall>k\<in>{1..?B - i}. \<not> halted_after N 2 m k)"
      using nv never_halt_Suc [OF st False, of "?B - Suc i"] by simp
    show ?thesis unfolding r r' using a b c by blast
  qed
qed

lemma after_steps_inv:
  assumes N: "N < kMaxStates" and tbl: "table_ok N 2 tbl"
  shows "loop_inv N 2 tbl i m \<Longrightarrow> i + k \<le> stepCount N 2
     \<Longrightarrow> \<forall>j<k. \<not> halted_after N 2 m j
     \<Longrightarrow> \<exists>m'. after_steps 2 k m = Inr m' \<and> loop_inv N 2 tbl (i + k) m'"
proof (induction k arbitrary: i m)
  case 0
  then show ?case by simp
next
  case (Suc k)
  have ns: "unat (currentState m) \<noteq> N"
    using Suc.prems(3) [rule_format, of 0] by (simp add: halted_after_0)
  have lt: "i < stepCount N 2" using Suc.prems(2) by simp
  from step_inv [OF N tbl Suc.prems(1) lt ns] obtain m1
    where st: "step 2 m = Inr m1" and inv1: "loop_inv N 2 tbl (Suc i) m1" by blast
  have nh: "\<forall>j<k. \<not> halted_after N 2 m1 j"
  proof (intro allI impI)
    fix j assume "j < k"
    then have "\<not> halted_after N 2 m (Suc j)" using Suc.prems(3) by simp
    then show "\<not> halted_after N 2 m1 j" using halted_after_Suc [OF st] by simp
  qed
  have le: "Suc i + k \<le> stepCount N 2" using Suc.prems(2) by simp
  from Suc.IH [OF inv1 le nh] obtain m' where
    "after_steps 2 k m1 = Inr m'" "loop_inv N 2 tbl (Suc i + k) m'" by blast
  then show ?case using st by simp
qed

lemma run_total:
  assumes "0 < N" and "N < kMaxStates" and "table_ok N 2 transitions"
  shows "\<exists>r. run N 2 (TuringMachine N 2 transitions) = Inr r"
proof -
  have "stepCount N 2 - 0 = stepCount N 2" by simp
  from run_loop_char [OF assms(2,3) this _ fresh_inv [OF assms(2)] fresh_state [OF assms(1)]]
  show ?thesis unfolding run_def by auto
qed

lemma after_steps_numeral:
  "after_steps S (numeral k) m =
     (case step S m of Inl e \<Rightarrow> Inl e | Inr m' \<Rightarrow> after_steps S (pred_numeral k) m')"
  by (simp add: numeral_eq_Suc)

lemma run_fresh_char:
  assumes "0 < N" and "N < kMaxStates" and "table_ok N 2 transitions"
  shows "\<exists>r. run N 2 (TuringMachine N 2 transitions) = Inr r
      \<and> (r = - 1 \<or> (1 \<le> r \<and> r \<le> int (stepCount N 2)))
      \<and> (\<forall>k. (r = int k) =
            (first_halt N 2 (TuringMachine N 2 transitions) k \<and> k \<le> stepCount N 2))
      \<and> ((r = - 1) =
            (\<forall>k\<in>{1..stepCount N 2}. \<not> halted_after N 2 (TuringMachine N 2 transitions) k))"
proof -
  have "stepCount N 2 - 0 = stepCount N 2" by simp
  from run_loop_char [OF assms(2,3) this _ fresh_inv [OF assms(2)] fresh_state [OF assms(1)]]
  show ?thesis by (simp add: run_def)
qed

section \<open>Every access of \<^verbatim>\<open>run\<close> is in bounds\<close>

text \<open>
  Claim C6. Under the same hypotheses, take any \<open>k\<close> up to the step budget such that the
  machine has not halted before its \<open>k\<close>-th step, so that \<^verbatim>\<open>run\<close> reaches the state
  after \<open>k\<close> steps. That state exists (no access has faulted), the tape has its full
  size, the head is inside it and within \<open>k\<close> cells of the midpoint where it started, and
  if the loop goes on to another step, the packed input is below \<^verbatim>\<open>kInputs\<close>, the size
  of the table. \<^verbatim>\<open>run\<close> as a whole returns a value, never a fault.
\<close>

theorem run_accesses_in_bounds:
  assumes "0 < N" and "N < kMaxStates" and "table_ok N 2 transitions"
    and "k \<le> stepCount N 2"
    and "\<forall>j\<in>{1..<k}. \<not> halted_after N 2 (TuringMachine N 2 transitions) j"
  shows "\<exists>m. after_steps 2 k (TuringMachine N 2 transitions) = Inr m
      \<and> length (tape m) = kTapeSize N 2
      \<and> unat (currentPosition m) < kTapeSize N 2
      \<and> kTapeSize N 2 div 2 \<le> unat (currentPosition m) + k
      \<and> unat (currentPosition m) \<le> kTapeSize N 2 div 2 + k
      \<and> length (kTransitions m) = kInputs N 2
      \<and> (k < stepCount N 2 \<and> \<not> halted_after N 2 (TuringMachine N 2 transitions) k
           \<longrightarrow> unat (packed_input 2 m) < kInputs N 2)
      \<and> (\<exists>r. run N 2 (TuringMachine N 2 transitions) = Inr r)"
proof -
  let ?m0 = "TuringMachine N 2 transitions"
  have nh: "\<forall>j<k. \<not> halted_after N 2 ?m0 j"
  proof (intro allI impI)
    fix j assume j: "j < k"
    show "\<not> halted_after N 2 ?m0 j"
    proof (cases j)
      case 0
      then show ?thesis using fresh_state [OF assms(1)] by (simp add: halted_after_0)
    next
      case (Suc j')
      then have "j \<in> {1..<k}" using j by simp
      then show ?thesis using assms(5) by blast
    qed
  qed
  from after_steps_inv [OF assms(2,3) fresh_inv [OF assms(2)] _ nh] assms(4)
  obtain m where m: "after_steps 2 k ?m0 = Inr m" and inv: "loop_inv N 2 transitions k m"
    by auto
  have half: "kTapeSize N 2 div 2 = stepCount N 2 + 1"
    by (simp add: kTapeSize_def stepCount_def)
  have a: "length (tape m) = kTapeSize N 2" using inv by (simp add: loop_inv_def)
  have b: "unat (currentPosition m) < kTapeSize N 2"
    using inv assms(4) by (simp add: loop_inv_def kTapeSize_def stepCount_def)
  have c: "kTapeSize N 2 div 2 \<le> unat (currentPosition m) + k"
    unfolding half using inv by (simp add: loop_inv_def)
  have d: "unat (currentPosition m) \<le> kTapeSize N 2 div 2 + k"
    unfolding half using inv by (simp add: loop_inv_def)
  have e: "length (kTransitions m) = kInputs N 2"
    using inv assms(3) by (simp add: loop_inv_def table_ok_def kTransitionCount_def)
  have f: "unat (packed_input 2 m) < kInputs N 2"
    if "k < stepCount N 2" "\<not> halted_after N 2 ?m0 k"
  proof -
    have "unat (currentState m) \<noteq> N"
      using that(2) m by (simp add: halted_after_def kHaltState_def)
    from step_inv [OF assms(2,3) inv that(1) this] show ?thesis by blast
  qed
  from run_total [OF assms(1,2,3)] have g: "\<exists>r. run N 2 ?m0 = Inr r" by blast
  show ?thesis using m a b c d e f g by blast
qed

text \<open>
  The champion after three steps, when it has not yet halted, as an instance.
\<close>

theorem run_accesses_in_bounds_witness:
  "\<exists>m. after_steps 2 3 (TuringMachine 2 2 [7, 6, 2, 11]) = Inr m
      \<and> length (tape m) = kTapeSize 2 2
      \<and> unat (currentPosition m) < kTapeSize 2 2
      \<and> kTapeSize 2 2 div 2 \<le> unat (currentPosition m) + 3
      \<and> unat (currentPosition m) \<le> kTapeSize 2 2 div 2 + 3
      \<and> length (kTransitions m) = kInputs 2 2
      \<and> unat (packed_input 2 m) < kInputs 2 2
      \<and> (\<exists>r. run 2 2 (TuringMachine 2 2 [7, 6, 2, 11]) = Inr r)"
proof -
  have h0: "{1..<3::nat} = {1, 2}" by auto
  have h: "\<forall>j\<in>{1..<3}. \<not> halted_after 2 2 (TuringMachine 2 2 [7, 6, 2, 11]) j"
    unfolding h0
    by (simp add: after_steps_numeral halted_after_def step_def packed_input_def
        TuringMachine_def kTapeSize_def kBusyBeaverNumbers_def kSymbolWidth_2 kDirectionWidth_1
        kDirectionOffsets_def outputDirectionMask_def outputSymbolMask_def kHaltState_def Let_def)
  have h3: "\<not> halted_after 2 2 (TuringMachine 2 2 [7, 6, 2, 11]) 3"
    by (simp add: after_steps_numeral halted_after_def step_def packed_input_def
        TuringMachine_def kTapeSize_def kBusyBeaverNumbers_def kSymbolWidth_2 kDirectionWidth_1
        kDirectionOffsets_def outputDirectionMask_def outputSymbolMask_def kHaltState_def Let_def)
  have t: "table_ok 2 2 [7, 6, 2, 11]"
    by (simp add: table_ok_def kTransitionCount_def kInputs_def kOutputs_def kDirectionCount_def)
  have n: "(0 :: nat) < 2" "2 < kMaxStates" by (simp_all add: kMaxStates_def)
  have k: "3 \<le> stepCount 2 2" "3 < stepCount 2 2"
    by (simp_all add: stepCount_def kBusyBeaverNumbers_def)
  from run_accesses_in_bounds [OF n t k(1) h] k(2) h3 show ?thesis by blast
qed

section \<open>The two-state busy beaver\<close>

text \<open>
  Claim C7. The table \<open>[7, 6, 2, 11]\<close> is the classical two-state champion in the
  encoding of the design (direction, written symbol, next state: on (A,0) right, 1, B; on
  (A,1) left, 1, B; on (B,0) left, 1, A; on (B,1) right, 1, halt), the step budget for two
  states and two symbols is 6, and \<^verbatim>\<open>run\<close> returns exactly 6.
\<close>

theorem busy_beaver_2_2_runs_6_steps:
  "run 2 2 (TuringMachine 2 2 [7, 6, 2, 11]) = Inr 6
   \<and> map unat [7, 6, 2, 11 :: output_t] =
       [design_output (symbol_width 2) 1 1 1, design_output (symbol_width 2) 0 1 1,
        design_output (symbol_width 2) 0 1 0, design_output (symbol_width 2) 1 1 (kHaltState 2)]
   \<and> stepCount 2 2 = 6"
  by (simp add: run_def run_loop.simps step_def packed_input_def TuringMachine_def kTapeSize_def
      stepCount_def kBusyBeaverNumbers_def kSymbolWidth_2 kDirectionWidth_1 kDirectionOffsets_def
      outputDirectionMask_def outputSymbolMask_def kHaltState_def Let_def
      design_output_def symbol_width_2)

section \<open>The all-zero table never halts\<close>

lemma step_fetch:
  assumes "step S m = Inr m'"
  shows "unat (packed_input S m) < length (kTransitions m)
     \<and> currentState m' = drop_bit (kSymbolWidth S)
          (drop_bit kDirectionWidth (kTransitions m ! unat (packed_input S m)))"
  using assms by (auto simp: step_def Let_def split: if_splits)

lemma zero_run_loop:
  assumes N: "N < kMaxStates" and tbl: "table_ok N 2 (replicate n 0)" and N0: "0 < N"
  shows "stepCount N 2 - i = d \<Longrightarrow> i \<le> stepCount N 2
     \<Longrightarrow> loop_inv N 2 (replicate n 0) i m \<Longrightarrow> unat (currentState m) \<noteq> N
     \<Longrightarrow> run_loop N 2 i m = Inr (- 1)"
proof (induction d arbitrary: i m)
  case 0
  then have i: "i = stepCount N 2" by simp
  show ?case by (subst run_loop.simps) (simp add: i)
next
  case (Suc d)
  from Suc.prems have lt: "i < stepCount N 2" by simp
  from step_inv [OF N tbl Suc.prems(3) lt Suc.prems(4)] obtain m'
    where st: "step 2 m = Inr m'" and inv': "loop_inv N 2 (replicate n 0) (Suc i) m'" by blast
  have "kTransitions m = replicate n 0" using Suc.prems(3) by (simp add: loop_inv_def)
  with step_fetch [OF st] have z: "currentState m' = 0" by simp
  then have ns: "unat (currentState m') \<noteq> N" using N0 by simp
  have r: "run_loop N 2 i m = run_loop N 2 (Suc i) m'"
    by (subst run_loop.simps) (simp add: lt st ns kHaltState_def)
  have d: "stepCount N 2 - Suc i = d" using Suc.prems(1) by simp
  have le: "Suc i \<le> stepCount N 2" using lt by simp
  show ?case unfolding r by (rule Suc.IH [OF d le inv' ns])
qed

lemma zero_table_ok: "table_ok N 2 (replicate (kTransitionCount N 2) 0)"
  by (simp add: table_ok_def kOutputs_2)

lemma zero_run:
  assumes "0 < N" "N < kMaxStates"
  shows "run N 2 (TuringMachine N 2 (replicate (kTransitionCount N 2) 0)) = Inr (- 1)"
  unfolding run_def
  by (rule zero_run_loop [OF assms(2) zero_table_ok assms(1) _ _ fresh_inv [OF assms(2)]
        fresh_state [OF assms(1)]]) simp_all

section \<open>The loop body refines the step of the design\<close>

lemma nat_pack: "c \<le> 1 \<Longrightarrow> push_bit 1 (s :: nat) OR c = 2 * s + c"
proof -
  assume "c \<le> 1"
  then have "c = 0 \<or> c = 1" by arith
  then show ?thesis by (auto simp: or_Suc_0_eq mult.commute)
qed

lemma unat_written: "unat (drop_bit 1 (f :: 8 word) AND 1) = drop_bit 1 (unat f) AND (push_bit 1 1 - 1)"
  by (simp add: unsigned_and_eq unat_drop_bit_eq)

lemma unat_next: "unat (drop_bit 1 (drop_bit 1 (f :: 8 word))) = drop_bit (1 + 1) (unat f)"
  by (simp add: unat_drop_bit_eq)

lemma dir_bit: "((f :: 8 word) AND 1 = 1) = (unat f AND 1 \<noteq> 0)"
proof -
  have "unat (f AND 1) = unat f AND 1" by (simp add: unsigned_and_eq)
  then show ?thesis using and_one_cases [of f] by (metis unat_eq_zero zero_neq_one unsigned_eq_0_iff)
qed

lemma offset_value:
  fixes p :: "64 word" and f :: "8 word"
  assumes "0 < unat p" "unat p + 1 < 2 ^ 64"
  shows "uint (p + word_of_int (kDirectionOffsets ! unat (f AND outputDirectionMask)))
       = uint p + (if unat f AND 1 \<noteq> 0 then 1 else - 1)"
proof (cases "f AND 1 = 1")
  case True
  then show ?thesis using assms(2) pos_right [of p] dir_bit [of f]
    by (simp add: outputDirectionMask_def kDirectionOffsets_def uint_nat del: of_nat_unat)
next
  case False
  then have z: "f AND 1 = 0" using and_one_cases [of f] by blast
  then show ?thesis using assms(1) pos_left [of p] dir_bit [of f]
    by (simp add: outputDirectionMask_def kDirectionOffsets_def uint_nat del: of_nat_unat)
qed

lemma head_off_tape: "(uint (p :: 64 word) < 0 \<or> int n \<le> uint p) = (n \<le> unat p)"
  by (simp add: uint_nat del: of_nat_unat)

lemma step_abs_machine:
  assumes bt: "binary_tape (tape m)"
    and st: "unat (currentState m) < 128"
    and p0: "0 < unat (currentPosition m)"
    and p1: "unat (currentPosition m) + 1 < 2 ^ 64"
  shows "design_step (symbol_width 2) (abs_machine m) =
           (case step 2 m of Inl e \<Rightarrow> None | Inr m' \<Rightarrow> Some (abs_machine m'))
       \<and> (\<forall>m'. step 2 m = Inr m' \<longrightarrow>
             (unat (currentState m') = kHaltState N) = design_halted N (abs_machine m'))"
proof -
  let ?p = "unat (currentPosition m)"
  let ?c = "abs_machine m"
  have dh: "d_head ?c = uint (currentPosition m)" and dt: "d_tape ?c = map unat (tape m)"
    and dtb: "d_table ?c = map unat (kTransitions m)" and ds: "d_state ?c = unat (currentState m)"
    by (simp_all add: abs_machine_def)
  have np: "nat (d_head ?c) = ?p" by (simp add: dh)
  have off_tape: "(d_head ?c < 0 \<or> int (length (d_tape ?c)) \<le> d_head ?c) = (length (tape m) \<le> ?p)"
    unfolding dh dt using head_off_tape [of "currentPosition m" "length (tape m)"] by simp
  have halt: "\<forall>m'. step 2 m = Inr m' \<longrightarrow>
             (unat (currentState m') = kHaltState N) = design_halted N (abs_machine m')"
    by (simp add: design_halted_def abs_machine_def kHaltState_def)
  have main: "design_step (symbol_width 2) ?c =
           (case step 2 m of Inl e \<Rightarrow> None | Inr m' \<Rightarrow> Some (abs_machine m'))"
  proof (cases "length (tape m) \<le> ?p")
    case True
    have "design_step (symbol_width 2) ?c = None"
      unfolding design_step_def off_tape using True by simp
    moreover have "step 2 m = Inl TapeOutOfBounds" using True by (simp add: step_def)
    ultimately show ?thesis by simp
  next
    case False
    note nle = False
    then have pin: "?p < length (tape m)" by simp
    have tv: "d_tape ?c ! nat (d_head ?c) = unat (tape m ! ?p)"
      unfolding np dt using pin by (rule nth_map)
    have c: "tape m ! ?p = 0 \<or> tape m ! ?p = 1"
      using bt pin unfolding binary_tape_def by (meson nth_mem)
    then have cle: "unat (tape m ! ?p) \<le> 1" by auto
    have inp: "unat (packed_input 2 m) = 2 * unat (currentState m) + unat (tape m ! ?p)"
      unfolding packed_input_def kSymbolWidth_2 by (rule unat_pack [OF st c])
    have dinp: "push_bit (symbol_width 2) (d_state ?c) OR d_tape ?c ! nat (d_head ?c)
                  = unat (packed_input 2 m)"
      unfolding inp tv ds symbol_width_2 by (rule nat_pack [OF cle])
    have ds1: "design_step (symbol_width 2) ?c =
        (if length (d_table ?c) \<le> unat (packed_input 2 m) then None
         else
          let out = d_table ?c ! unat (packed_input 2 m);
              dir_bit = out AND 1;
              offset = (if dir_bit \<noteq> 0 then 1 else - 1);
              write_sym = drop_bit 1 out AND (push_bit (symbol_width 2) 1 - 1);
              next_state = drop_bit (1 + symbol_width 2) out
          in Some (?c\<lparr>d_tape := (d_tape ?c)[nat (d_head ?c) := write_sym],
                     d_head := d_head ?c + offset,
                     d_state := next_state\<rparr>))"
      apply (subst design_step_def)
      apply (subst off_tape)
      apply (subst Let_def)
      apply (subst Let_def)
      apply (subst dinp)+
      using nle apply simp
      done
    show ?thesis
    proof (cases "length (kTransitions m) \<le> unat (packed_input 2 m)")
      case True
      have "design_step (symbol_width 2) ?c = None"
        unfolding ds1 using True by (simp add: dtb)
      moreover have "step 2 m = Inl TransitionOutOfBounds" using nle True by (simp add: step_def)
      ultimately show ?thesis by simp
    next
      case False
      let ?f = "kTransitions m ! unat (packed_input 2 m)"
      let ?off = "word_of_int (kDirectionOffsets ! unat (?f AND outputDirectionMask)) :: 64 word"
      let ?m' = "m\<lparr>tape := (tape m)[?p := drop_bit kDirectionWidth ?f AND outputSymbolMask],
                 currentState := drop_bit (kSymbolWidth 2) (drop_bit kDirectionWidth ?f),
                 currentPosition := currentPosition m + ?off\<rparr>"
      have stp: "step 2 m = Inr ?m'" using nle False by (simp add: step_def Let_def)
      have fv: "d_table ?c ! unat (packed_input 2 m) = unat ?f"
        unfolding dtb using False by simp
      have off: "uint (currentPosition m + ?off)
              = uint (currentPosition m) + (if unat ?f AND 1 \<noteq> 0 then 1 else - 1)"
        by (rule offset_value [OF p0 p1])
      let ?c' = "?c\<lparr>d_tape := (d_tape ?c)[?p := drop_bit 1 (unat ?f) AND (push_bit 1 1 - 1)],
                     d_head := d_head ?c + (if unat ?f AND 1 \<noteq> 0 then 1 else - 1),
                     d_state := drop_bit (1 + 1) (unat ?f)\<rparr>"
      have dst: "design_step (symbol_width 2) ?c = Some ?c'"
        unfolding ds1 Let_def fv np
        using False by (simp add: dtb symbol_width_2 del: One_nat_def)
      have ab: "abs_machine ?m' = ?c'"
        unfolding kSymbolWidth_2 kDirectionWidth_1 outputSymbolMask_def
        by (simp add: abs_machine_def map_update unat_written unat_next unat_drop_bit_eq off
            del: One_nat_def)
      show ?thesis by (simp only: dst stp sum.case ab)
    qed
  qed
  show ?thesis using main halt by blast
qed

lemma loop_inv_refinement:
  assumes "N < kMaxStates" and "loop_inv N 2 tbl k m" and "k < stepCount N 2"
  shows "binary_tape (tape m) \<and> unat (currentState m) < 128
       \<and> 0 < unat (currentPosition m) \<and> unat (currentPosition m) + 1 < 2 ^ 64"
proof -
  have B: "stepCount N 2 \<le> 10000" using assms(1) by (rule stepCount_le)
  have "N < 8" using assms(1) by (simp add: kMaxStates_def)
  then have "unat (currentState m) < 128" using assms(2) by (simp add: loop_inv_def)
  moreover have "0 < unat (currentPosition m)" using assms(2,3) by (simp add: loop_inv_def)
  moreover have "unat (currentPosition m) + 1 < 2 ^ 64"
    using assms(2,3) B by (simp add: loop_inv_def)
  ultimately show ?thesis using assms(2) by (simp add: loop_inv_def)
qed

text \<open>
  Claim C2. For two symbols, one pass through the loop body computes the step of the
  design. The machine is read as a configuration of the design (bytes and the position as
  natural numbers). On a tape of zeros and ones, with a state that the left shift does not
  truncate and a head that does not wrap around the \<^verbatim>\<open>size_t\<close> range (all of which the
  loop invariant gives at every iteration), the design's step on the abstraction is the
  abstraction of the code's step: the same direction bit and offset, the same written
  symbol, the same next state, the same tape and head; both have no result when the head
  or the input is out of range. The code's test for the halt state is the design's.
\<close>

theorem step_refines_design:
  assumes "binary_tape (tape m)"
    and "unat (currentState m) < 128"
    and "0 < unat (currentPosition m)"
    and "unat (currentPosition m) + 1 < 2 ^ 64"
  shows "design_step (symbol_width 2) (abs_machine m) =
           (case step 2 m of Inl e \<Rightarrow> None | Inr m' \<Rightarrow> Some (abs_machine m'))
       \<and> (\<forall>m'. step 2 m = Inr m' \<longrightarrow>
             (unat (currentState m') = kHaltState N) = design_halted N (abs_machine m'))"
  using assms by (rule step_abs_machine)

text \<open>
  The fresh champion machine as an instance.
\<close>

theorem step_refines_design_witness:
  "design_step (symbol_width 2) (abs_machine (TuringMachine 2 2 [7, 6, 2, 11])) =
     (case step 2 (TuringMachine 2 2 [7, 6, 2, 11]) of
        Inl e \<Rightarrow> None | Inr m' \<Rightarrow> Some (abs_machine m'))
   \<and> (\<exists>m'. step 2 (TuringMachine 2 2 [7, 6, 2, 11]) = Inr m'
         \<and> (unat (currentState m') = kHaltState 2) = design_halted 2 (abs_machine m'))"
proof -
  have s: "\<exists>m'. step 2 (TuringMachine 2 2 [7, 6, 2, 11]) = Inr m'"
    by (simp add: step_def packed_input_def TuringMachine_def kTapeSize_def
        kBusyBeaverNumbers_def kSymbolWidth_2 Let_def)
  have b: "binary_tape (tape (TuringMachine 2 2 [7, 6, 2, 11]))"
    by (simp add: binary_tape_def TuringMachine_def)
  have c: "unat (currentState (TuringMachine 2 2 [7, 6, 2, 11])) < 128"
    by (simp add: TuringMachine_def)
  have p: "0 < unat (currentPosition (TuringMachine 2 2 [7, 6, 2, 11]))"
    "unat (currentPosition (TuringMachine 2 2 [7, 6, 2, 11])) + 1 < 2 ^ 64"
    by (simp_all add: TuringMachine_def kTapeSize_def kBusyBeaverNumbers_def)
  from step_refines_design [OF b c p, of 2] s show ?thesis by blast
qed

section \<open>The result of \<^verbatim>\<open>run\<close>\<close>

lemma unat_drop2_less: "unat (drop_bit 1 (drop_bit 1 (x :: 8 word))) < 128"
proof -
  have "unat x < 2 ^ LENGTH(8)" by (rule unsigned_less)
  then have "unat x < 256" by simp
  then show ?thesis unfolding unat_drop2 by arith
qed

lemma head_inv_step:
  assumes inv: "head_inv B k m" and k: "k < B" and B: "B \<le> 10000"
    and st: "step 2 m = Inr m'"
  shows "head_inv B (Suc k) m'"
proof -
  let ?p = "unat (currentPosition m)"
  let ?f = "kTransitions m ! unat (packed_input 2 m)"
  let ?off = "word_of_int (kDirectionOffsets ! unat (?f AND outputDirectionMask)) :: 64 word"
  have plo: "B + 1 \<le> ?p + k" and phi: "?p \<le> B + 1 + k" using inv by (simp_all add: head_inv_def)
  have ppos: "0 < ?p" using plo k by arith
  have pw: "?p + 1 < 2 ^ 64" using phi k B by simp
  have m': "m' = m\<lparr>tape := (tape m)[?p := drop_bit kDirectionWidth ?f AND outputSymbolMask],
                 currentState := drop_bit (kSymbolWidth 2) (drop_bit kDirectionWidth ?f),
                 currentPosition := currentPosition m + ?off\<rparr>"
    using st by (simp add: step_def Let_def split: if_splits)
  have w: "drop_bit kDirectionWidth ?f AND outputSymbolMask = 0
         \<or> drop_bit kDirectionWidth ?f AND outputSymbolMask = 1"
    unfolding outputSymbolMask_def by (rule and_one_cases)
  have bt: "binary_tape (tape m')"
    unfolding m' using inv w by (simp add: head_inv_def binary_tape_update)
  have s': "unat (currentState m') < 128"
    unfolding m' kSymbolWidth_2 kDirectionWidth_1 using unat_drop2_less [of ?f] by simp
  have off: "?off = word_of_int (- 1) \<or> ?off = word_of_int 1" by (rule offset_cases)
  have pnew: "unat (currentPosition m + ?off) = ?p - 1 \<or> unat (currentPosition m + ?off) = ?p + 1"
    using off ppos pw pos_left [of "currentPosition m"] pos_right [of "currentPosition m"]
    by metis
  have pl: "B + 1 \<le> unat (currentPosition m') + Suc k"
    and ph: "unat (currentPosition m') \<le> B + 1 + Suc k"
    unfolding m' using pnew plo phi ppos by auto
  show ?thesis unfolding head_inv_def using bt s' pl ph by simp
qed

lemma design_halted_after_eq:
  assumes B: "B \<le> 10000"
  shows "head_inv B i m \<Longrightarrow> i + k \<le> B
     \<Longrightarrow> design_halted_after N (symbol_width 2) (abs_machine m) k = halted_after N 2 m k"
proof (induction k arbitrary: i m)
  case 0
  show ?case
    by (simp add: design_halted_after_def halted_after_def design_halted_def abs_machine_def
        kHaltState_def)
next
  case (Suc k)
  have lt: "i < B" using Suc.prems(2) by simp
  have plo: "B + 1 \<le> unat (currentPosition m) + i"
    and phi: "unat (currentPosition m) \<le> B + 1 + i"
    using Suc.prems(1) by (simp_all add: head_inv_def)
  have p0: "0 < unat (currentPosition m)" using plo lt by arith
  have p1: "unat (currentPosition m) + 1 < 2 ^ 64" using phi lt B by simp
  have bt: "binary_tape (tape m)" and s: "unat (currentState m) < 128"
    using Suc.prems(1) by (simp_all add: head_inv_def)
  from step_abs_machine [OF bt s p0 p1, of N] have
    r: "design_step (symbol_width 2) (abs_machine m) =
           (case step 2 m of Inl e \<Rightarrow> None | Inr m' \<Rightarrow> Some (abs_machine m'))" by blast
  show ?case
  proof (cases "step 2 m")
    case (Inl e)
    then show ?thesis using r by (simp add: design_halted_after_def halted_after_def)
  next
    case (Inr m')
    have inv': "head_inv B (Suc i) m'" by (rule head_inv_step [OF Suc.prems(1) lt B Inr])
    have le: "Suc i + k \<le> B" using Suc.prems(2) by simp
    have "design_halted_after N (symbol_width 2) (abs_machine m) (Suc k)
        = design_halted_after N (symbol_width 2) (abs_machine m') k"
      using r Inr by (simp add: design_halted_after_def)
    also have "\<dots> = halted_after N 2 m' k" by (rule Suc.IH [OF inv' le])
    also have "\<dots> = halted_after N 2 m (Suc k)" using halted_after_Suc [OF Inr] by simp
    finally show ?thesis .
  qed
qed

lemma abs_fresh:
  assumes "N < kMaxStates"
  shows "abs_machine (TuringMachine N 2 tbl) = design_machine (stepCount N 2) (map unat tbl)"
proof -
  have B: "stepCount N 2 \<le> 10000" using assms by (rule stepCount_le)
  have "unat (of_nat ((2 * stepCount N 2 + 2) div 2) :: 64 word)
      = (2 * stepCount N 2 + 2) div 2"
    using B by (simp only: unat_of_nat) simp
  then have "uint (of_nat ((2 * stepCount N 2 + 2) div 2) :: 64 word)
      = int ((2 * stepCount N 2 + 2) div 2)"
    by (simp only: uint_nat)
  then show ?thesis
    by (simp add: abs_machine_def TuringMachine_def design_machine_def kTapeSize_def
        stepCount_def del: of_nat_unat)
qed

lemma fresh_head_inv:
  assumes "N < kMaxStates"
  shows "head_inv (stepCount N 2) 0 (TuringMachine N 2 tbl)"
  using fresh_inv [OF assms, of tbl] by (simp add: head_inv_def loop_inv_def TuringMachine_def)

lemma design_halts_eq:
  assumes N: "N < kMaxStates" and k: "k \<le> stepCount N 2"
  shows "design_halted_after N (symbol_width 2)
           (design_machine (stepCount N 2) (map unat tbl)) k
       = halted_after N 2 (TuringMachine N 2 tbl) k"
  unfolding abs_fresh [OF N, symmetric]
  using design_halted_after_eq [OF stepCount_le [OF N] fresh_head_inv [OF N], of k N tbl] k
  by simp

lemma design_first_halt_eq:
  assumes N: "N < kMaxStates" and k: "k \<le> stepCount N 2"
  shows "design_first_halt N (symbol_width 2)
           (design_machine (stepCount N 2) (map unat tbl)) k
       = first_halt N 2 (TuringMachine N 2 tbl) k"
proof -
  have "(\<forall>j\<in>{1..<k}. \<not> design_halted_after N (symbol_width 2)
           (design_machine (stepCount N 2) (map unat tbl)) j)
      = (\<forall>j\<in>{1..<k}. \<not> halted_after N 2 (TuringMachine N 2 tbl) j)"
  proof (rule ball_cong [OF refl])
    fix j assume "j \<in> {1..<k}"
    then have "j \<le> stepCount N 2" using k by simp
    then show "(\<not> design_halted_after N (symbol_width 2)
           (design_machine (stepCount N 2) (map unat tbl)) j)
        = (\<not> halted_after N 2 (TuringMachine N 2 tbl) j)"
      using design_halts_eq [OF N] by simp
  qed
  then show ?thesis
    unfolding design_first_halt_def first_halt_def design_halts_eq [OF N k] by simp
qed

text \<open>
  Claim C1. For the binary alphabet, every state count \<open>N\<close> from 1 that the bound table
  covers, and every transition table of \<open>N * 2\<close> entries all below \<^verbatim>\<open>kOutputs\<close>:
  \<^verbatim>\<open>run\<close> on the freshly constructed machine returns, without fault, either \<open>-1\<close> or a
  number between 1 and the step budget; it returns \<open>k\<close> exactly when the machine first
  enters the halt state on its \<open>k\<close>-th step and \<open>k\<close> is within the budget; and it returns
  \<open>-1\<close> exactly when no step up to the budget enters the halt state. This holds both of
  the machine as the code steps it and of the machine of the design, stepped on unbounded
  numbers from the table read as natural numbers.
\<close>

theorem run_returns_steps_to_halt:
  assumes "0 < N" and "N < kMaxStates" and "table_ok N 2 transitions"
  shows "\<exists>r. run N 2 (TuringMachine N 2 transitions) = Inr r
      \<and> (r = - 1 \<or> (1 \<le> r \<and> r \<le> int (stepCount N 2)))
      \<and> (\<forall>k. (r = int k) =
            (first_halt N 2 (TuringMachine N 2 transitions) k \<and> k \<le> stepCount N 2))
      \<and> ((r = - 1) =
            (\<forall>k\<in>{1..stepCount N 2}. \<not> halted_after N 2 (TuringMachine N 2 transitions) k))
      \<and> (\<forall>k. (r = int k) =
            (design_first_halt N (symbol_width 2)
               (design_machine (stepCount N 2) (map unat transitions)) k
             \<and> k \<le> stepCount N 2))
      \<and> ((r = - 1) =
            (\<forall>k\<in>{1..stepCount N 2}. \<not> design_halted_after N (symbol_width 2)
               (design_machine (stepCount N 2) (map unat transitions)) k))"
proof -
  let ?m = "TuringMachine N 2 transitions"
  let ?c = "design_machine (stepCount N 2) (map unat transitions)"
  from run_fresh_char [OF assms] obtain r where
    r: "run N 2 ?m = Inr r"
    and rng: "r = - 1 \<or> (1 \<le> r \<and> r \<le> int (stepCount N 2))"
    and ex: "\<And>k. (r = int k) = (first_halt N 2 ?m k \<and> k \<le> stepCount N 2)"
    and nv: "(r = - 1) = (\<forall>k\<in>{1..stepCount N 2}. \<not> halted_after N 2 ?m k)"
    by blast
  have dex: "(r = int k) = (design_first_halt N (symbol_width 2) ?c k \<and> k \<le> stepCount N 2)"
    for k
  proof (cases "k \<le> stepCount N 2")
    case True
    then show ?thesis using ex [of k] design_first_halt_eq [OF assms(2) True] by simp
  next
    case False
    then show ?thesis using ex [of k] by simp
  qed
  have "(\<forall>k\<in>{1..stepCount N 2}. \<not> design_halted_after N (symbol_width 2) ?c k)
      = (\<forall>k\<in>{1..stepCount N 2}. \<not> halted_after N 2 ?m k)"
  proof (rule ball_cong [OF refl])
    fix k assume "k \<in> {1..stepCount N 2}"
    then have "k \<le> stepCount N 2" by simp
    then show "(\<not> design_halted_after N (symbol_width 2) ?c k) = (\<not> halted_after N 2 ?m k)"
      using design_halts_eq [OF assms(2)] by simp
  qed
  then have dnv: "(r = - 1)
      = (\<forall>k\<in>{1..stepCount N 2}. \<not> design_halted_after N (symbol_width 2) ?c k)"
    using nv by simp
  show ?thesis using r rng ex nv dex dnv by blast
qed

text \<open>
  The two-state champion as an instance: its table satisfies the hypotheses, \<^verbatim>\<open>run\<close>
  returns 6, and so the sixth step is the first to enter the halt state, for the code's
  machine and for the design's.
\<close>

theorem run_returns_steps_to_halt_witness:
  "run 2 2 (TuringMachine 2 2 [7, 6, 2, 11]) = Inr 6
   \<and> first_halt 2 2 (TuringMachine 2 2 [7, 6, 2, 11]) 6
   \<and> design_first_halt 2 (symbol_width 2)
         (design_machine (stepCount 2 2) (map unat [7, 6, 2, 11 :: output_t])) 6"
proof -
  have t: "table_ok 2 2 [7, 6, 2, 11]"
    by (simp add: table_ok_def kTransitionCount_def kInputs_def kOutputs_def kDirectionCount_def)
  have n: "(0 :: nat) < 2" "2 < kMaxStates" by (simp_all add: kMaxStates_def)
  from run_returns_steps_to_halt [OF n t] obtain r where
    r: "run 2 2 (TuringMachine 2 2 [7, 6, 2, 11]) = Inr r"
    and ex: "\<And>k. (r = int k) =
            (first_halt 2 2 (TuringMachine 2 2 [7, 6, 2, 11]) k \<and> k \<le> stepCount 2 2)"
    and dex: "\<And>k. (r = int k) =
            (design_first_halt 2 (symbol_width 2)
               (design_machine (stepCount 2 2) (map unat [7, 6, 2, 11 :: output_t])) k
             \<and> k \<le> stepCount 2 2)"
    by blast
  have six: "run 2 2 (TuringMachine 2 2 [7, 6, 2, 11]) = Inr 6"
    by (simp add: run_def run_loop.simps step_def packed_input_def TuringMachine_def
        kTapeSize_def stepCount_def kBusyBeaverNumbers_def kSymbolWidth_2 kDirectionWidth_1
        kDirectionOffsets_def outputDirectionMask_def outputSymbolMask_def kHaltState_def
        Let_def)
  then have "r = int 6" using r by simp
  then show ?thesis using six ex [of 6] dex [of 6] by simp
qed

section \<open>Digits\<close>

lemma odometer_digits_Suc:
  "odometer_digits b (Suc len) n = (n mod b) # odometer_digits b len (n div b)"
proof -
  have "[0..<Suc len] = 0 # map Suc [0..<len]"
    by (simp add: upt_conv_Cons map_Suc_upt del: upt_Suc)
  then show ?thesis
    by (simp add: odometer_digits_def div_mult2_eq comp_def del: upt_Suc)
qed

lemma odometer_digits_0 [simp]: "odometer_digits b 0 n = []"
  by (simp add: odometer_digits_def)

lemma length_odometer_digits [simp]: "length (odometer_digits b len n) = len"
  by (simp add: odometer_digits_def)

lemma inc_odometer_digits:
  "0 < b \<Longrightarrow> inc_digits b (odometer_digits b len n) = odometer_digits b len (n + 1)"
proof (induction len arbitrary: n)
  case 0
  then show ?case by simp
next
  case (Suc len)
  show ?case
  proof (cases "n mod b = b - 1")
    case True
    then have e: "Suc (n mod b) = b" using Suc.prems by arith
    then have m: "Suc n mod b = 0" by (simp add: mod_Suc)
    then have "Suc n div b = Suc (n div b)" by (simp add: div_Suc)
    with m show ?thesis using True Suc.IH [OF Suc.prems, of "n div b"]
      by (simp add: odometer_digits_Suc)
  next
    case False
    then have e: "Suc (n mod b) \<noteq> b" using Suc.prems by arith
    then have m: "Suc n mod b = Suc (n mod b)" by (simp add: mod_Suc)
    then have "Suc n div b = n div b" by (simp add: div_Suc)
    with m show ?thesis using False by (simp add: odometer_digits_Suc)
  qed
qed

lemma odometer_value_digits:
  "0 < b \<Longrightarrow> n < b ^ len \<Longrightarrow> odometer_value b (odometer_digits b len n) = n"
proof (induction len arbitrary: n)
  case 0
  then show ?case by simp
next
  case (Suc len)
  have "n div b < b ^ len" using Suc.prems by (simp add: less_mult_imp_div_less mult.commute)
  from Suc.IH [OF Suc.prems(1) this] show ?case
    by (simp add: odometer_digits_Suc)
qed

lemma odometer_value_less:
  "\<forall>d\<in>set ds. d < b \<Longrightarrow> odometer_value b ds < b ^ length ds"
proof (induction ds)
  case Nil
  then show ?case by simp
next
  case (Cons d ds)
  then have d: "d < b" and v: "odometer_value b ds < b ^ length ds" by simp_all
  then have "odometer_value b ds + 1 \<le> b ^ length ds" by simp
  then have "b * (odometer_value b ds + 1) \<le> b * b ^ length ds" by (rule mult_le_mono2)
  then show ?case using d by simp
qed

lemma odometer_digits_value:
  "\<forall>d\<in>set ds. d < b \<Longrightarrow> odometer_digits b (length ds) (odometer_value b ds) = ds"
proof (induction ds)
  case Nil
  then show ?case by simp
next
  case (Cons d ds)
  then have d: "d < b" and ih: "odometer_digits b (length ds) (odometer_value b ds) = ds"
    by simp_all
  then show ?case by (simp add: odometer_digits_Suc)
qed

lemma odometer_digits_zero: "odometer_digits b len 0 = replicate len 0"
  by (simp add: odometer_digits_def map_replicate_const)

section \<open>The odometer\<close>

lemma unat_succ_entry: "unat (x :: 8 word) < 255 \<Longrightarrow> unat (x + 1) = unat x + 1"
  by (simp add: unat_word_ariths)

lemma advance_inc:
  assumes b: "kOutputs N S = b" and b0: "0 < b" and b256: "b \<le> 256"
  shows "length ts - i = d \<Longrightarrow> kTransitionCount N S = length ts \<Longrightarrow> i \<le> length ts
     \<Longrightarrow> \<forall>x\<in>set ts. unat x < b
     \<Longrightarrow> map unat (advance_transitions N S i ts)
           = take i (map unat ts) @ inc_digits b (drop i (map unat ts))
         \<and> length (advance_transitions N S i ts) = length ts"
proof (induction d arbitrary: i ts)
  case 0
  then have i: "i = length ts" and kt: "kTransitionCount N S = length ts" by simp_all
  have "advance_transitions N S i ts = ts"
    by (subst advance_transitions.simps) (simp add: i kt)
  then show ?case by (simp add: i)
next
  case (Suc d)
  then have lt: "i < length ts" by simp
  let ?xs = "map unat ts"
  have dr: "drop i ?xs = unat (ts ! i) # drop (Suc i) ?xs"
    using lt by (simp add: Cons_nth_drop_Suc [symmetric])
  show ?case
  proof (cases "unat (ts ! i) = b - 1")
    case True
    let ?ts' = "ts[i := 0]"
    have adv: "advance_transitions N S i ts = advance_transitions N S (i + 1) ?ts'"
      by (subst advance_transitions.simps) (simp add: lt Suc.prems(2) True b del: One_nat_def)
    have p1: "length ?ts' - (i + 1) = d" using Suc.prems(1) by simp
    have p2: "kTransitionCount N S = length ?ts'" using Suc.prems(2) by simp
    have p3: "i + 1 \<le> length ?ts'" using lt by simp
    have p4: "\<forall>x\<in>set ?ts'. unat x < b"
    proof
      fix x assume "x \<in> set ?ts'"
      then have "x = 0 \<or> x \<in> set ts" using set_update_subset_insert [of ts i 0] by auto
      then show "unat x < b" using b0 Suc.prems(4) by auto
    qed
    from Suc.IH [OF p1 p2 p3 p4]
    have ih: "map unat (advance_transitions N S (i + 1) ?ts')
           = take (i + 1) (map unat ?ts') @ inc_digits b (drop (i + 1) (map unat ?ts'))"
      and il: "length (advance_transitions N S (i + 1) ?ts') = length ?ts'" by simp_all
    have m: "map unat ?ts' = ?xs[i := 0]" by (simp add: map_update)
    have t: "take (i + 1) (?xs[i := 0]) = take i ?xs @ [0]"
      using lt by (simp add: take_Suc_conv_app_nth)
    have dd: "drop (i + 1) (?xs[i := 0]) = drop (Suc i) ?xs" by simp
    show ?thesis unfolding adv ih il m t dd dr using True by simp
  next
    case False
    have adv: "advance_transitions N S i ts = ts[i := ts ! i + 1]"
      by (subst advance_transitions.simps) (simp add: lt Suc.prems(2) False b del: One_nat_def)
    have "unat (ts ! i) < b" using Suc.prems(4) lt by simp
    then have "unat (ts ! i) < 255" using False b256 by arith
    then have u: "unat (ts ! i + 1) = unat (ts ! i) + 1" by (rule unat_succ_entry)
    have "map unat (ts[i := ts ! i + 1]) = ?xs[i := unat (ts ! i) + 1]"
      by (simp add: map_update u)
    also have "\<dots> = take i ?xs @ (unat (ts ! i) + 1) # drop (Suc i) ?xs"
      using lt by (simp add: upd_conv_take_nth_drop)
    finally show ?thesis unfolding adv dr using False by simp
  qed
qed

lemma advance_digits:
  assumes b: "kOutputs N S = b" and b0: "0 < b" and b256: "b \<le> 256"
    and len: "kTransitionCount N S = length ts"
    and dg: "map unat ts = odometer_digits b (length ts) n"
  shows "map unat (advance_transitions N S 0 ts) = odometer_digits b (length ts) (n + 1)
     \<and> length (advance_transitions N S 0 ts) = length ts"
proof -
  have lt: "\<forall>x\<in>set ts. unat x < b"
  proof
    fix x assume "x \<in> set ts"
    then have "unat x \<in> set (map unat ts)" by simp
    then show "unat x < b" unfolding dg using b0 by (auto simp: odometer_digits_def)
  qed
  from advance_inc [OF b b0 b256 refl len _ lt, of 0]
  have "map unat (advance_transitions N S 0 ts) = inc_digits b (map unat ts)"
    and l: "length (advance_transitions N S 0 ts) = length ts" by simp_all
  then show ?thesis unfolding dg using inc_odometer_digits [OF b0] by simp
qed

lemma digits_table_ok:
  assumes "length ts = kTransitionCount N 2"
    and "map unat ts = odometer_digits (kOutputs N 2) (kInputs N 2) j"
  shows "table_ok N 2 ts"
proof -
  have "unat x < kOutputs N 2" if "x \<in> set ts" for x
  proof -
    from that have "unat x \<in> set (map unat ts)" by simp
    then show ?thesis unfolding assms(2) by (auto simp: odometer_digits_def kOutputs_2)
  qed
  then show ?thesis using assms(1) by (simp add: table_ok_def)
qed

lemma final_counters_Cons:
  "final_counters h n (r # rs) =
     final_counters (haltingCount_after r) (nonHaltingCount_after r) rs"
  by (simp add: final_counters_def)

lemma testMachines_loop_rows:
  assumes N0: "0 < N" and N: "N < kMaxStates"
  shows "kUniqueMachineCount N 2 - j = d \<Longrightarrow> j \<le> kUniqueMachineCount N 2
     \<Longrightarrow> length ts = kTransitionCount N 2
     \<Longrightarrow> map unat ts = odometer_digits (kOutputs N 2) (kInputs N 2) j
     \<Longrightarrow> \<exists>rows. testMachines_loop N 2 j ts h n = Inr (rows, final_counters h n rows)
           \<and> length rows = d \<and> counters_chain h n rows
           \<and> (\<forall>i<d. row_ok N (j + i) (rows ! i))"
proof (induction d arbitrary: j ts h n)
  case 0
  then have j: "j = kUniqueMachineCount N 2" by simp
  have "testMachines_loop N 2 j ts h n = Inr ([], h, n)"
    by (subst testMachines_loop.simps) (simp add: j)
  then show ?case by (simp add: final_counters_def)
next
  case (Suc d)
  then have lt: "j < kUniqueMachineCount N 2" by simp
  have tok: "table_ok N 2 ts" using Suc.prems(3,4) by (rule digits_table_ok)
  from run_total [OF N0 N tok] obtain steps
    where rn: "run N 2 (TuringMachine N 2 ts) = Inr steps" by blast
  let ?h1 = "if steps > 0 then h + 1 else h"
  let ?n1 = "if steps > 0 then n else n + 1"
  let ?w = "\<lparr>state_count = N, symbol_count = 2, machine_id = j, steps_to_halt = steps,
             transitions_used = ts, haltingCount_after = ?h1, nonHaltingCount_after = ?n1\<rparr>"
  let ?ts' = "advance_transitions N 2 0 ts"
  have b256: "kOutputs N 2 \<le> 256" using N by (simp add: kOutputs_2 kMaxStates_def)
  have b0: "0 < kOutputs N 2" by (simp add: kOutputs_2)
  have dg: "map unat ts = odometer_digits (kOutputs N 2) (length ts) j"
    using Suc.prems(3,4) by (simp add: kTransitionCount_def)
  from advance_digits [OF refl b0 b256 Suc.prems(3) [symmetric] dg]
  have dg': "map unat ?ts' = odometer_digits (kOutputs N 2) (kInputs N 2) (j + 1)"
    and len': "length ?ts' = kTransitionCount N 2"
    using Suc.prems(3) by (simp_all add: kTransitionCount_def)
  have d: "kUniqueMachineCount N 2 - (j + 1) = d" using Suc.prems(1) by simp
  have le: "j + 1 \<le> kUniqueMachineCount N 2" using lt by simp
  from Suc.IH [OF d le len' dg', of ?h1 ?n1] obtain rows where
    r: "testMachines_loop N 2 (j + 1) ?ts' ?h1 ?n1 = Inr (rows, final_counters ?h1 ?n1 rows)"
    and l: "length rows = d" and ch: "counters_chain ?h1 ?n1 rows"
    and ok: "\<forall>i<d. row_ok N (j + 1 + i) (rows ! i)" by blast
  have res: "testMachines_loop N 2 j ts h n = Inr (?w # rows, final_counters ?h1 ?n1 rows)"
    apply (subst testMachines_loop.simps)
    apply (simp only: lt if_True rn sum.case Let_def r)
    apply (simp add: case_prod_beta)
    done
  have fc: "final_counters h n (?w # rows) = final_counters ?h1 ?n1 rows"
    by (simp add: final_counters_Cons)
  have w: "row_ok N j ?w"
    using rn Suc.prems(3,4) by (simp add: row_ok_def)
  have all: "\<forall>i<Suc d. row_ok N (j + i) ((?w # rows) ! i)"
  proof (intro allI impI)
    fix i assume i: "i < Suc d"
    show "row_ok N (j + i) ((?w # rows) ! i)"
    proof (cases i)
      case 0
      then show ?thesis using w by simp
    next
      case (Suc i')
      then have "i' < d" using i by simp
      with ok have "row_ok N (j + 1 + i') (rows ! i')" by blast
      then show ?thesis using Suc by simp
    qed
  qed
  have chn: "counters_chain h n (?w # rows)" using ch by simp
  show ?case
    apply (rule exI [of _ "?w # rows"])
    unfolding fc using res l chn all by simp
qed

lemma testMachines_rows:
  assumes N0: "0 < N" and N: "N < kMaxStates"
  shows "\<exists>rows. testMachines N 2 h n = Inr (rows, final_counters h n rows)
           \<and> length rows = kUniqueMachineCount N 2 \<and> counters_chain h n rows
           \<and> (\<forall>i<kUniqueMachineCount N 2. row_ok N i (rows ! i))"
proof -
  let ?ts = "replicate (kTransitionCount N 2) (0 :: output_t)"
  have l: "length ?ts = kTransitionCount N 2" by simp
  have d: "map unat ?ts = odometer_digits (kOutputs N 2) (kInputs N 2) 0"
    by (simp add: odometer_digits_zero kTransitionCount_def)
  have "kUniqueMachineCount N 2 - 0 = kUniqueMachineCount N 2" by simp
  from testMachines_loop_rows [OF N0 N this _ l d, of h n]
  show ?thesis unfolding testMachines_def by simp
qed

lemma count_values:
  "kUniqueMachineCount 1 2 = 64" "kUniqueMachineCount 2 2 = 20736"
  "kUniqueMachineCount 3 2 = 16777216" "kUniqueMachineCount 4 2 = 25600000000"
  by (simp_all add: kUniqueMachineCount_def kOutputs_2 kInputs_2)

lemma kMaxStates_small: "1 < kMaxStates" "2 < kMaxStates" "3 < kMaxStates" "4 < kMaxStates"
  by (simp_all add: kMaxStates_def)

lemma testMachines_rows_count:
  assumes "0 < N" and "N < kMaxStates" and "kUniqueMachineCount N 2 = c"
  shows "\<exists>rows. testMachines N 2 h n = Inr (rows, final_counters h n rows)
           \<and> length rows = c \<and> counters_chain h n rows
           \<and> (\<forall>i<c. row_ok N i (rows ! i))"
  using testMachines_rows [OF assms(1,2), of h n] unfolding assms(3) .

lemma pass_states: "N \<in> {1, 2, 3, 4} \<Longrightarrow> 0 < N \<and> N < kMaxStates"
  by (auto simp: kMaxStates_def)

lemma unat_map_inj: "map unat (xs :: output_t list) = map unat ys \<Longrightarrow> xs = ys"
proof -
  assume a: "map unat xs = map unat ys"
  have "inj (unat :: output_t \<Rightarrow> nat)" by (rule injI) (simp add: word_unat_eq_iff)
  then show ?thesis using a by simp
qed

lemma rows_tables:
  assumes N0: "0 < N" and N: "N < kMaxStates"
    and len: "length rows = kUniqueMachineCount N 2"
    and ok: "\<forall>i<kUniqueMachineCount N 2. row_ok N i (rows ! i)"
  shows "distinct (map transitions_used rows)
       \<and> set (map transitions_used rows) = {t. table_ok N 2 t}
       \<and> (\<forall>i<kUniqueMachineCount N 2.
             odometer_value (kOutputs N 2) (map unat (transitions_used (rows ! i))) = i)"
proof -
  let ?b = "kOutputs N 2" and ?l = "kInputs N 2" and ?C = "kUniqueMachineCount N 2"
  have b0: "0 < ?b" by (simp add: kOutputs_2)
  have C: "?C = ?b ^ ?l" by (simp add: kUniqueMachineCount_def)
  have dg: "map unat (transitions_used (rows ! i)) = odometer_digits ?b ?l i" if "i < ?C" for i
  proof -
    from ok that have "row_ok N i (rows ! i)" by blast
    then show ?thesis unfolding row_ok_def by (elim conjE)
  qed
  have val: "odometer_value ?b (map unat (transitions_used (rows ! i))) = i" if "i < ?C" for i
  proof -
    have "i < ?b ^ ?l" using that unfolding C .
    from odometer_value_digits [OF b0 this] show ?thesis unfolding dg [OF that] .
  qed
  have dist: "distinct (map transitions_used rows)"
    unfolding distinct_conv_nth
  proof (intro allI impI)
    fix i j assume i: "i < length (map transitions_used rows)"
      and j: "j < length (map transitions_used rows)" and ne: "i \<noteq> j"
    then have i': "i < ?C" and j': "j < ?C" using len by simp_all
    show "map transitions_used rows ! i \<noteq> map transitions_used rows ! j"
    proof
      assume "map transitions_used rows ! i = map transitions_used rows ! j"
      then have "transitions_used (rows ! i) = transitions_used (rows ! j)"
        using i j by simp
      then have "odometer_value ?b (map unat (transitions_used (rows ! i)))
          = odometer_value ?b (map unat (transitions_used (rows ! j)))" by (rule arg_cong)
      then have "i = j" unfolding val [OF i'] val [OF j'] .
      with ne show False by (rule notE)
    qed
  qed
  have sub: "set (map transitions_used rows) \<subseteq> {t. table_ok N 2 t}"
  proof
    fix t assume "t \<in> set (map transitions_used rows)"
    then obtain i where i: "i < length rows" and t: "t = transitions_used (rows ! i)"
      by (auto simp: in_set_conv_nth)
    then have "row_ok N i (rows ! i)" using ok len by simp
    then have "table_ok N 2 (transitions_used (rows ! i))"
      by (intro digits_table_ok) (simp_all add: row_ok_def)
    then show "t \<in> {t. table_ok N 2 t}" using t by simp
  qed
  have sup: "{t. table_ok N 2 t} \<subseteq> set (map transitions_used rows)"
  proof
    fix t assume "t \<in> {t. table_ok N 2 t}"
    then have tk: "table_ok N 2 t" by simp
    then have tl: "length t = ?l" by (simp add: table_ok_def kTransitionCount_def)
    have tb: "\<forall>d\<in>set (map unat t). d < ?b"
    proof
      fix d assume "d \<in> set (map unat t)"
      then obtain x where "x \<in> set t" "d = unat x" by auto
      then show "d < ?b" using tk by (simp add: table_ok_def)
    qed
    let ?v = "odometer_value ?b (map unat t)"
    have "?v < ?b ^ length (map unat t)" by (rule odometer_value_less [OF tb])
    then have v: "?v < ?C" unfolding C using tl by simp
    have "odometer_digits ?b (length (map unat t)) ?v = map unat t"
      by (rule odometer_digits_value [OF tb])
    then have "odometer_digits ?b ?l ?v = map unat t" using tl by simp
    then have "map unat (transitions_used (rows ! ?v)) = map unat t" using dg [OF v] by simp
    then have "transitions_used (rows ! ?v) = t" by (rule unat_map_inj)
    moreover have vl: "?v < length rows" using v len by simp
    moreover have "map transitions_used rows ! ?v \<in> set (map transitions_used rows)"
      by (rule nth_mem) (simp add: vl)
    then have "transitions_used (rows ! ?v) \<in> set (map transitions_used rows)"
      by (simp only: nth_map [OF vl])
    ultimately show "t \<in> set (map transitions_used rows)" by simp
  qed
  show ?thesis using dist sub sup val by blast
qed

text \<open>
  Claim C3. In each pass the driver makes (\<open>N\<close> from 1 to 4, two symbols), whatever the
  counters on entry, \<^verbatim>\<open>testMachines\<close> completes without fault and simulates exactly
  \<^verbatim>\<open>kUniqueMachineCount\<close> machines. At iteration \<open>i\<close> the machine identifier is \<open>i\<close>,
  the table passed to the simulator is the little-endian digits of \<open>i\<close> in base
  \<^verbatim>\<open>kOutputs\<close> (entry \<open>j\<close> is digit \<open>j\<close>), reading the table back as a number gives
  \<open>i\<close>, and the recorded step count is what \<^verbatim>\<open>run\<close> returns on that table. The tables
  visited are pairwise distinct and are exactly the tables of the right size with entries
  below \<^verbatim>\<open>kOutputs\<close>; the first is the all-zero table.
\<close>

theorem enumeration_is_odometer:
  assumes "N \<in> {1, 2, 3, 4}"
  shows "\<exists>rows h' n'. testMachines N 2 h n = Inr (rows, h', n')
     \<and> length rows = kUniqueMachineCount N 2
     \<and> (\<forall>i<kUniqueMachineCount N 2.
          machine_id (rows ! i) = i
          \<and> map unat (transitions_used (rows ! i))
              = odometer_digits (kOutputs N 2) (kInputs N 2) i
          \<and> odometer_value (kOutputs N 2) (map unat (transitions_used (rows ! i))) = i
          \<and> run N 2 (TuringMachine N 2 (transitions_used (rows ! i)))
              = Inr (steps_to_halt (rows ! i)))
     \<and> distinct (map transitions_used rows)
     \<and> set (map transitions_used rows) = {t. table_ok N 2 t}
     \<and> transitions_used (rows ! 0) = replicate (kTransitionCount N 2) 0"
proof -
  from pass_states [OF assms] have N0: "0 < N" and N: "N < kMaxStates" by simp_all
  from testMachines_rows [OF N0 N, of h n] obtain rows where
    t: "testMachines N 2 h n = Inr (rows, final_counters h n rows)"
    and len: "length rows = kUniqueMachineCount N 2"
    and ok: "\<forall>i<kUniqueMachineCount N 2. row_ok N i (rows ! i)" by blast
  from rows_tables [OF N0 N len ok] have
    d: "distinct (map transitions_used rows)"
    and s: "set (map transitions_used rows) = {t. table_ok N 2 t}"
    and v: "\<forall>i<kUniqueMachineCount N 2.
             odometer_value (kOutputs N 2) (map unat (transitions_used (rows ! i))) = i"
    by simp_all
  have pos: "0 < kUniqueMachineCount N 2" by (simp add: kUniqueMachineCount_def kOutputs_2)
  then have "row_ok N 0 (rows ! 0)" using ok by blast
  then have "map unat (transitions_used (rows ! 0))
      = map unat (replicate (kTransitionCount N 2) (0 :: output_t))"
    by (simp add: row_ok_def odometer_digits_zero kTransitionCount_def)
  then have z: "transitions_used (rows ! 0) = replicate (kTransitionCount N 2) 0"
    by (rule unat_map_inj)
  have each: "\<forall>i<kUniqueMachineCount N 2.
          machine_id (rows ! i) = i
          \<and> map unat (transitions_used (rows ! i))
              = odometer_digits (kOutputs N 2) (kInputs N 2) i
          \<and> odometer_value (kOutputs N 2) (map unat (transitions_used (rows ! i))) = i
          \<and> run N 2 (TuringMachine N 2 (transitions_used (rows ! i)))
              = Inr (steps_to_halt (rows ! i))"
    using ok v by (simp add: row_ok_def)
  obtain h' n' where "final_counters h n rows = (h', n')" by (cases "final_counters h n rows")
  with t have "testMachines N 2 h n = Inr (rows, h', n')" by simp
  then show ?thesis using len each d s z by blast
qed

text \<open>
  The pass for one state as an instance: 64 rows, and row 13 carries the table
  \<open>[5, 1]\<close>, since \<open>13 = 5 + 1 * 8\<close>.
\<close>

theorem enumeration_is_odometer_witness:
  "\<exists>rows h' n'. testMachines 1 2 0 0 = Inr (rows, h', n')
     \<and> length rows = 64
     \<and> machine_id (rows ! 13) = 13
     \<and> map unat (transitions_used (rows ! 13)) = [5, 1]
     \<and> odometer_value 8 (map unat (transitions_used (rows ! 13))) = 13
     \<and> distinct (map transitions_used rows)
     \<and> transitions_used (rows ! 0) = [0, 0]"
proof -
  have n: "(1 :: nat) \<in> {1, 2, 3, 4}" by simp
  from enumeration_is_odometer [OF n, of 0 0] obtain rows h' n' where
    t: "testMachines 1 2 0 0 = Inr (rows, h', n')"
    and l: "length rows = kUniqueMachineCount 1 2"
    and e: "\<forall>i<kUniqueMachineCount 1 2.
          machine_id (rows ! i) = i
          \<and> map unat (transitions_used (rows ! i))
              = odometer_digits (kOutputs 1 2) (kInputs 1 2) i
          \<and> odometer_value (kOutputs 1 2) (map unat (transitions_used (rows ! i))) = i
          \<and> run 1 2 (TuringMachine 1 2 (transitions_used (rows ! i)))
              = Inr (steps_to_halt (rows ! i))"
    and d: "distinct (map transitions_used rows)"
    and z: "transitions_used (rows ! 0) = replicate (kTransitionCount 1 2) 0"
    by blast
  have c: "kUniqueMachineCount 1 2 = 64" by (rule count_values(1))
  have o: "kOutputs 1 2 = 8" and i: "kInputs 1 2 = 2"
    by (simp_all add: kOutputs_def kInputs_def kDirectionCount_def)
  have "(13 :: nat) < kUniqueMachineCount 1 2" unfolding c by simp
  with e have e13: "machine_id (rows ! 13) = 13
          \<and> map unat (transitions_used (rows ! 13))
              = odometer_digits (kOutputs 1 2) (kInputs 1 2) 13
          \<and> odometer_value (kOutputs 1 2) (map unat (transitions_used (rows ! 13))) = 13"
    by blast
  have dg: "odometer_digits 8 2 13 = [5, 1]"
    by (simp add: odometer_digits_def upt_rec)
  have "replicate (kTransitionCount 1 2) (0 :: output_t) = [0, 0]"
    unfolding kTransitionCount_def i by (simp add: numeral_2_eq_2)
  with z have z': "transitions_used (rows ! 0) = [0, 0]" by simp
  have l64: "length rows = 64" using l unfolding c .
  have a: "machine_id (rows ! 13) = 13" using e13 by simp
  have b: "map unat (transitions_used (rows ! 13)) = [5, 1]"
    using e13 unfolding o i dg by simp
  have v: "odometer_value 8 (map unat (transitions_used (rows ! 13))) = 13"
    using e13 unfolding o i dg by simp
  show ?thesis
    by (rule exI [of _ rows], rule exI [of _ h'], rule exI [of _ n'])
      (intro conjI t l64 a b v d z')
qed

section \<open>The first machine of each pass\<close>

text \<open>
  Claim C8. In each pass the driver makes (\<open>N\<close> from 1 to 4, two symbols) the first
  machine simulated has identifier 0 and the all-zero table, each entry of which is the
  design's encoding of: move left, write 0, go to state 0. \<^verbatim>\<open>run\<close> returns \<open>-1\<close> on it,
  and that is the step count of the first row.
\<close>

theorem first_machine_never_halts:
  assumes "N \<in> {1, 2, 3, 4}"
  shows "\<exists>rows h' n'. testMachines N 2 h n = Inr (rows, h', n')
     \<and> rows \<noteq> []
     \<and> machine_id (rows ! 0) = 0
     \<and> transitions_used (rows ! 0) = replicate (kTransitionCount N 2) 0
     \<and> steps_to_halt (rows ! 0) = - 1
     \<and> run N 2 (TuringMachine N 2 (replicate (kTransitionCount N 2) 0)) = Inr (- 1)
     \<and> unat (0 :: output_t) = design_output (symbol_width 2) 0 0 0"
proof -
  from pass_states [OF assms] have N0: "0 < N" and N: "N < kMaxStates" by simp_all
  from testMachines_rows [OF N0 N, of h n] obtain rows where
    t: "testMachines N 2 h n = Inr (rows, final_counters h n rows)"
    and len: "length rows = kUniqueMachineCount N 2"
    and ok: "\<forall>i<kUniqueMachineCount N 2. row_ok N i (rows ! i)" by blast
  have pos: "0 < kUniqueMachineCount N 2" by (simp add: kUniqueMachineCount_def kOutputs_2)
  then have r0: "row_ok N 0 (rows ! 0)" using ok by blast
  have ne: "rows \<noteq> []" using len pos by auto
  from r0 have "map unat (transitions_used (rows ! 0))
      = map unat (replicate (kTransitionCount N 2) (0 :: output_t))"
    by (simp add: row_ok_def odometer_digits_zero kTransitionCount_def)
  then have z: "transitions_used (rows ! 0) = replicate (kTransitionCount N 2) 0"
    by (rule unat_map_inj)
  have zr: "run N 2 (TuringMachine N 2 (replicate (kTransitionCount N 2) 0)) = Inr (- 1)"
    by (rule zero_run [OF N0 N])
  from r0 have "run N 2 (TuringMachine N 2 (transitions_used (rows ! 0)))
      = Inr (steps_to_halt (rows ! 0))" by (simp add: row_ok_def)
  then have st: "steps_to_halt (rows ! 0) = - 1" unfolding z zr by simp
  have id0: "machine_id (rows ! 0) = 0" using r0 by (simp add: row_ok_def)
  have dz: "unat (0 :: output_t) = design_output (symbol_width 2) 0 0 0"
    by (simp add: design_output_def)
  obtain h' n' where "final_counters h n rows = (h', n')" by (cases "final_counters h n rows")
  with t have "testMachines N 2 h n = Inr (rows, h', n')" by simp
  then show ?thesis using ne id0 z st zr dz by blast
qed

text \<open>
  The pass for three states as an instance.
\<close>

theorem first_machine_never_halts_witness:
  "\<exists>rows h' n'. testMachines 3 2 0 0 = Inr (rows, h', n')
     \<and> rows \<noteq> []
     \<and> machine_id (rows ! 0) = 0
     \<and> transitions_used (rows ! 0) = replicate (kTransitionCount 3 2) 0
     \<and> steps_to_halt (rows ! 0) = - 1
     \<and> run 3 2 (TuringMachine 3 2 (replicate (kTransitionCount 3 2) 0)) = Inr (- 1)
     \<and> unat (0 :: output_t) = design_output (symbol_width 2) 0 0 0"
  using first_machine_never_halts [of 3 0 0] by simp

section \<open>The number of rows\<close>

lemma rows_state:
  assumes "length rows = c" and "\<forall>i<c. row_ok N i (rows ! i)"
  shows "\<forall>r\<in>set rows. state_count r = N"
proof
  fix r assume "r \<in> set rows"
  then obtain i where "i < length rows" "r = rows ! i" by (auto simp: in_set_conv_nth)
  then show "state_count r = N" using assms by (simp add: row_ok_def)
qed

lemma filter_all: "\<forall>r\<in>set rows. state_count r = N \<Longrightarrow> filter (\<lambda>r. state_count r = N) rows = rows"
  by (induction rows) simp_all

lemma filter_none:
  "\<forall>r\<in>set rows. state_count r = M \<Longrightarrow> M \<noteq> N \<Longrightarrow> filter (\<lambda>r. state_count r = N) rows = []"
  by (induction rows) simp_all

lemma chain_append:
  "counters_chain h n (xs @ ys) =
     (counters_chain h n xs
      \<and> counters_chain (fst (final_counters h n xs)) (snd (final_counters h n xs)) ys)"
proof (induction xs arbitrary: h n)
  case Nil
  then show ?case by (simp add: final_counters_def)
next
  case (Cons r rs)
  show ?case
    unfolding append_Cons counters_chain.simps final_counters_Cons Cons.IH by simp
qed

lemma final_append:
  "final_counters h n (xs @ ys) =
     final_counters (fst (final_counters h n xs)) (snd (final_counters h n xs)) ys"
proof (induction xs arbitrary: h n)
  case Nil
  then show ?case by (simp add: final_counters_def)
next
  case (Cons r rs)
  show ?case unfolding append_Cons final_counters_Cons by (rule Cons.IH)
qed

lemma main_passes_rows:
  "\<exists>rows1 rows2 rows3 rows4.
     main_passes = Inr (rows1 @ rows2 @ rows3 @ rows4,
                        final_counters 0 0 (rows1 @ rows2 @ rows3 @ rows4))
     \<and> counters_chain 0 0 (rows1 @ rows2 @ rows3 @ rows4)
     \<and> length rows1 = 64 \<and> length rows2 = 20736
     \<and> length rows3 = 16777216 \<and> length rows4 = 25600000000
     \<and> (\<forall>i<64. row_ok 1 i (rows1 ! i))
     \<and> (\<forall>i<20736. row_ok 2 i (rows2 ! i))
     \<and> (\<forall>i<16777216. row_ok 3 i (rows3 ! i))
     \<and> (\<forall>i<25600000000. row_ok 4 i (rows4 ! i))"
proof -
  obtain rows1 where t1: "testMachines 1 2 0 0 = Inr (rows1, final_counters 0 0 rows1)"
    and l1: "length rows1 = 64" and c1: "counters_chain 0 0 rows1"
    and o1: "\<forall>i<64. row_ok 1 i (rows1 ! i)"
    using testMachines_rows_count [OF zero_less_one kMaxStates_small(1) count_values(1), of 0 0]
    by blast
  let ?h1 = "fst (final_counters 0 0 rows1)" and ?n1 = "snd (final_counters 0 0 rows1)"
  obtain rows2 where t2: "testMachines 2 2 ?h1 ?n1 = Inr (rows2, final_counters ?h1 ?n1 rows2)"
    and l2: "length rows2 = 20736" and c2: "counters_chain ?h1 ?n1 rows2"
    and o2: "\<forall>i<20736. row_ok 2 i (rows2 ! i)"
    using testMachines_rows_count [OF zero_less_numeral kMaxStates_small(2) count_values(2),
        of ?h1 ?n1]
    by blast
  let ?h2 = "fst (final_counters ?h1 ?n1 rows2)" and ?n2 = "snd (final_counters ?h1 ?n1 rows2)"
  obtain rows3 where t3: "testMachines 3 2 ?h2 ?n2 = Inr (rows3, final_counters ?h2 ?n2 rows3)"
    and l3: "length rows3 = 16777216" and c3: "counters_chain ?h2 ?n2 rows3"
    and o3: "\<forall>i<16777216. row_ok 3 i (rows3 ! i)"
    using testMachines_rows_count [OF zero_less_numeral kMaxStates_small(3) count_values(3),
        of ?h2 ?n2]
    by blast
  let ?h3 = "fst (final_counters ?h2 ?n2 rows3)" and ?n3 = "snd (final_counters ?h2 ?n2 rows3)"
  obtain rows4 where t4: "testMachines 4 2 ?h3 ?n3 = Inr (rows4, final_counters ?h3 ?n3 rows4)"
    and l4: "length rows4 = 25600000000" and c4: "counters_chain ?h3 ?n3 rows4"
    and o4: "\<forall>i<25600000000. row_ok 4 i (rows4 ! i)"
    using testMachines_rows_count [OF zero_less_numeral kMaxStates_small(4) count_values(4),
        of ?h3 ?n3]
    by blast
  have f12: "final_counters 0 0 (rows1 @ rows2) = final_counters ?h1 ?n1 rows2"
    by (rule final_append)
  have f123: "final_counters 0 0 (rows1 @ rows2 @ rows3) = final_counters ?h2 ?n2 rows3"
    using final_append [of 0 0 "rows1 @ rows2" rows3] by (simp add: f12)
  have f1234: "final_counters 0 0 (rows1 @ rows2 @ rows3 @ rows4) = final_counters ?h3 ?n3 rows4"
    using final_append [of 0 0 "rows1 @ rows2 @ rows3" rows4] by (simp add: f123)
  have c12: "counters_chain 0 0 (rows1 @ rows2)" using c1 c2 by (simp add: chain_append)
  have c123: "counters_chain 0 0 (rows1 @ rows2 @ rows3)"
    using chain_append [of 0 0 "rows1 @ rows2" rows3] c12 c3 by (simp add: f12)
  have c1234: "counters_chain 0 0 (rows1 @ rows2 @ rows3 @ rows4)"
    using chain_append [of 0 0 "rows1 @ rows2 @ rows3" rows4] c123 c4 by (simp add: f123)
  have mp: "main_passes = Inr (rows1 @ rows2 @ rows3 @ rows4,
                        final_counters 0 0 (rows1 @ rows2 @ rows3 @ rows4))"
    unfolding main_passes_def kSymbolCount_main_def t1 f1234
    apply (simp only: sum.case)
    apply (simp add: case_prod_beta t2 t3 t4)
    done
  show ?thesis using mp c1234 l1 l2 l3 l4 o1 o2 o3 o4 by blast
qed

lemma main_rows_eq:
  "\<exists>rows1 rows2 rows3 rows4.
     main_rows = rows1 @ rows2 @ rows3 @ rows4
     \<and> main_passes = Inr (main_rows, final_counters 0 0 main_rows)
     \<and> counters_chain 0 0 main_rows
     \<and> length rows1 = 64 \<and> length rows2 = 20736
     \<and> length rows3 = 16777216 \<and> length rows4 = 25600000000
     \<and> (\<forall>i<64. row_ok 1 i (rows1 ! i))
     \<and> (\<forall>i<20736. row_ok 2 i (rows2 ! i))
     \<and> (\<forall>i<16777216. row_ok 3 i (rows3 ! i))
     \<and> (\<forall>i<25600000000. row_ok 4 i (rows4 ! i))"
proof -
  from main_passes_rows obtain rows1 rows2 rows3 rows4 where
    mp: "main_passes = Inr (rows1 @ rows2 @ rows3 @ rows4,
                        final_counters 0 0 (rows1 @ rows2 @ rows3 @ rows4))"
    and rest: "counters_chain 0 0 (rows1 @ rows2 @ rows3 @ rows4)"
      "length rows1 = 64" "length rows2 = 20736"
      "length rows3 = 16777216" "length rows4 = 25600000000"
      "\<forall>i<64. row_ok 1 i (rows1 ! i)"
      "\<forall>i<20736. row_ok 2 i (rows2 ! i)"
      "\<forall>i<16777216. row_ok 3 i (rows3 ! i)"
      "\<forall>i<25600000000. row_ok 4 i (rows4 ! i)" by blast
  have mr: "main_rows = rows1 @ rows2 @ rows3 @ rows4"
    unfolding main_rows_def mp by (simp add: case_prod_beta)
  show ?thesis using mp rest unfolding mr [symmetric] using mr by blast
qed

section \<open>The counters\<close>

lemma chain_sum_word:
  "counters_chain h n rows \<Longrightarrow> i < length rows
     \<Longrightarrow> haltingCount_after (rows ! i) + nonHaltingCount_after (rows ! i)
           = h + n + of_nat (Suc i)"
proof (induction rows arbitrary: h n i)
  case Nil
  then show ?case by simp
next
  case (Cons r rs)
  from Cons.prems(1) have r: "haltingCount_after r + nonHaltingCount_after r = h + n + 1"
    and ch: "counters_chain (haltingCount_after r) (nonHaltingCount_after r) rs"
    by (auto split: if_splits)
  show ?case
  proof (cases i)
    case 0
    then show ?thesis using r by simp
  next
    case (Suc i')
    then have "i' < length rs" using Cons.prems(2) by simp
    from Cons.IH [OF ch this] show ?thesis using Suc r by simp
  qed
qed

lemma chain_nat:
  "counters_chain h n rows \<Longrightarrow> i < length rows \<Longrightarrow> unat h + unat n + i + 1 < 2 ^ 31
     \<Longrightarrow> unat (haltingCount_after (rows ! i)) + unat (nonHaltingCount_after (rows ! i))
           = unat h + unat n + i + 1
         \<and> unat (halting_before h rows i) \<le> unat (haltingCount_after (rows ! i))"
proof (induction rows arbitrary: h n i)
  case Nil
  then show ?case by simp
next
  case (Cons r rs)
  have hb: "unat h + 1 < 2 ^ 32" and nb: "unat n + 1 < 2 ^ 32" using Cons.prems(3) by simp_all
  have h1: "unat (h + 1) = unat h + 1" using hb by (simp add: unat_word_ariths)
  have n1: "unat (n + 1) = unat n + 1" using nb by (simp add: unat_word_ariths)
  from Cons.prems(1) have ch: "counters_chain (haltingCount_after r) (nonHaltingCount_after r) rs"
    by simp
  from Cons.prems(1) have r: "unat (haltingCount_after r) + unat (nonHaltingCount_after r)
       = unat h + unat n + 1" and m: "unat h \<le> unat (haltingCount_after r)"
    using h1 n1 by (auto split: if_splits)
  show ?case
  proof (cases i)
    case 0
    then show ?thesis using r m by (simp add: halting_before_def)
  next
    case (Suc i')
    then have l: "i' < length rs" using Cons.prems(2) by simp
    have b: "unat (haltingCount_after r) + unat (nonHaltingCount_after r) + i' + 1 < 2 ^ 31"
      using Cons.prems(3) Suc r by simp
    have hb': "halting_before h (r # rs) i = halting_before (haltingCount_after r) rs i'"
      using Suc by (cases i') (simp_all add: halting_before_def)
    from Cons.IH [OF ch l b] show ?thesis unfolding hb' using Suc r by simp
  qed
qed

lemma sint_of_small: 
  assumes "unat (x :: 32 word) < 2 ^ 31" 
  shows "sint x = int (unat x)"
proof -
  have u: "uint x < 2 ^ 31" using assms by (simp add: uint_nat del: of_nat_unat)
  have "- (2 ^ 31) \<le> (0 :: int)" by simp
  also have "0 \<le> uint x" by simp
  finally have "signed_take_bit 31 (uint x) = uint x"
    using u by (rule signed_take_bit_int_eq_self)
  then show ?thesis by (simp add: sint_uint uint_nat del: of_nat_unat)
qed

lemma small_of_sint:
  assumes "0 \<le> sint (x :: 32 word)"
  shows "unat x < 2 ^ 31 \<and> sint x = int (unat x)"
proof -
  have lt: "sint x < 2 ^ 31" using sint_lt [of x] by simp
  have "uint x = take_bit 32 (sint x)" using uint_sint [of x] by simp
  also have "\<dots> = sint x" using assms lt by (simp add: take_bit_int_eq_self)
  finally have e: "uint x = sint x" .
  then have ie: "int (unat x) = sint x" by (simp add: uint_nat del: of_nat_unat)
  have "sint x < 2147483648" using lt by simp
  with ie have "unat x < 2147483648" by linarith
  then show ?thesis using ie by simp
qed

lemma divisor_of_zero_sum:
  assumes "(h :: 32 word) + n = 0"
  shows "sint h + sint n < 1"
proof -
  have "sint (h + n) = signed_take_bit 31 (sint h + sint n)"
    by (simp add: sint_word_ariths)
  then have "signed_take_bit 31 (sint h + sint n) = signed_take_bit 31 (0 :: int)"
    using assms by simp
  then have "take_bit 32 (sint h + sint n) = take_bit 32 (0 :: int)"
    by (simp only: signed_take_bit_eq_iff_take_bit_eq) simp
  then have m: "(sint h + sint n) mod 4294967296 = 0" by (simp add: take_bit_eq_mod)
  have b: "sint h < 2147483648" "sint n < 2147483648"
    using sint_lt [of h] sint_lt [of n] by simp_all
  show ?thesis
  proof (rule ccontr)
    assume "\<not> sint h + sint n < 1"
    then have p: "0 \<le> sint h + sint n" and q: "sint h + sint n \<noteq> 0" by simp_all
    have "sint h + sint n < 4294967296" using b by linarith
    with p have "(sint h + sint n) mod 4294967296 = sint h + sint n"
      by (rule mod_pos_pos_trivial)
    with m q show False by simp
  qed
qed

lemma count_bounds:
  "kUniqueMachineCount 1 2 < 2 ^ 53" "kUniqueMachineCount 2 2 < 2 ^ 53"
  "kUniqueMachineCount 3 2 < 2 ^ 53" "kUniqueMachineCount 4 2 < 2 ^ 53"
  unfolding count_values by simp_all

text \<open>
  Claim C9. With \<^verbatim>\<open>kUniqueMachineCount\<close> the exact power that the design gives, the
  four passes have 64, 20736, 16777216 and 25600000000 machines, each count below
  \<open>2 ^ 53\<close> and so a double that a correctly rounded power returns exactly. The passes
  for one and two states run 64 and 20736 machines: \<^verbatim>\<open>testMachines\<close> returns that many
  rows whatever the counters on entry, and those are the numbers of rows of the whole
  program that carry state count 1 and 2.
\<close>

theorem machine_counts:
  "kUniqueMachineCount 1 2 = 64 \<and> kUniqueMachineCount 2 2 = 20736
   \<and> kUniqueMachineCount 3 2 = 16777216 \<and> kUniqueMachineCount 4 2 = 25600000000
   \<and> kUniqueMachineCount 1 2 < 2 ^ 53 \<and> kUniqueMachineCount 2 2 < 2 ^ 53
   \<and> kUniqueMachineCount 3 2 < 2 ^ 53 \<and> kUniqueMachineCount 4 2 < 2 ^ 53
   \<and> (\<exists>rows h' n'. testMachines 1 2 h1 n1 = Inr (rows, h', n') \<and> length rows = 64)
   \<and> (\<exists>rows h' n'. testMachines 2 2 h2 n2 = Inr (rows, h', n') \<and> length rows = 20736)
   \<and> length (filter (\<lambda>r. state_count r = 1) main_rows) = 64
   \<and> length (filter (\<lambda>r. state_count r = 2) main_rows) = 20736"
proof -
  have a: "\<exists>rows h' n'. testMachines 1 2 h1 n1 = Inr (rows, h', n') \<and> length rows = 64"
    using testMachines_rows_count [OF zero_less_one kMaxStates_small(1) count_values(1), of h1 n1]
    by (metis surj_pair)
  have b: "\<exists>rows h' n'. testMachines 2 2 h2 n2 = Inr (rows, h', n') \<and> length rows = 20736"
    using testMachines_rows_count [OF zero_less_numeral kMaxStates_small(2) count_values(2),
        of h2 n2]
    by (metis surj_pair)
  from main_rows_eq obtain rows1 rows2 rows3 rows4 where
    mr: "main_rows = rows1 @ rows2 @ rows3 @ rows4"
    and l: "length rows1 = 64" "length rows2 = 20736"
      "length rows3 = 16777216" "length rows4 = 25600000000"
    and o1: "\<forall>i<64. row_ok 1 i (rows1 ! i)"
    and o2: "\<forall>i<20736. row_ok 2 i (rows2 ! i)"
    and o3: "\<forall>i<16777216. row_ok 3 i (rows3 ! i)"
    and o4: "\<forall>i<25600000000. row_ok 4 i (rows4 ! i)" by blast
  have s1: "\<forall>r\<in>set rows1. state_count r = 1" using l(1) o1 by (rule rows_state)
  have s2: "\<forall>r\<in>set rows2. state_count r = 2" using l(2) o2 by (rule rows_state)
  have s3: "\<forall>r\<in>set rows3. state_count r = 3" using l(3) o3 by (rule rows_state)
  have s4: "\<forall>r\<in>set rows4. state_count r = 4" using l(4) o4 by (rule rows_state)
  have f1: "filter (\<lambda>r. state_count r = 1) main_rows = rows1"
    unfolding mr filter_append
    using filter_all [OF s1] filter_none [OF s2, of 1] filter_none [OF s3, of 1]
      filter_none [OF s4, of 1] by simp
  have f2: "filter (\<lambda>r. state_count r = 2) main_rows = rows2"
    unfolding mr filter_append
    using filter_all [OF s2] filter_none [OF s1, of 2] filter_none [OF s3, of 2]
      filter_none [OF s4, of 2] by simp
  have g1: "length (filter (\<lambda>r. state_count r = 1) main_rows) = 64"
    unfolding f1 by (rule l(1))
  have g2: "length (filter (\<lambda>r. state_count r = 2) main_rows) = 20736"
    unfolding f2 by (rule l(2))
  show ?thesis by (intro conjI count_values count_bounds a b g1 g2)
qed

section \<open>The running counters\<close>

lemma main_rows_chain:
  "counters_chain 0 0 main_rows \<and> length main_rows = 25616798016"
proof -
  from main_rows_eq obtain rows1 rows2 rows3 rows4 where
    mr: "main_rows = rows1 @ rows2 @ rows3 @ rows4" and ch: "counters_chain 0 0 main_rows"
    and l: "length rows1 = 64" "length rows2 = 20736"
      "length rows3 = 16777216" "length rows4 = 25600000000" by blast
  have "length main_rows = length (rows1 @ rows2 @ rows3 @ rows4)" by (simp only: mr)
  then have "length main_rows = 25616798016" using l by simp
  with ch show ?thesis by simp
qed

lemma main_rows_nth:
  "row_ok 2 0 (main_rows ! 64) \<and> row_ok 4 4278169279 (main_rows ! 4294967295)"
proof -
  from main_rows_eq obtain rows1 rows2 rows3 rows4 where
    mr: "main_rows = rows1 @ rows2 @ rows3 @ rows4"
    and l: "length rows1 = 64" "length rows2 = 20736"
      "length rows3 = 16777216" "length rows4 = 25600000000"
    and o2: "\<forall>i<20736. row_ok 2 i (rows2 ! i)"
    and o4: "\<forall>i<25600000000. row_ok 4 i (rows4 ! i)" by blast
  have a: "main_rows ! 64 = rows2 ! 0" unfolding mr using l by (simp add: nth_append)
  have b: "main_rows ! 4294967295 = rows4 ! 4278169279"
    unfolding mr using l by (simp add: nth_append)
  have "row_ok 2 0 (rows2 ! 0)" using o2 by simp
  moreover have "row_ok 4 4278169279 (rows4 ! 4278169279)" using o4 by simp
  ultimately show ?thesis unfolding a b by simp
qed

lemma main_result:
  "main open_ok =
     Inr \<lparr>exit_code = 0,
          results_file = (if open_ok then Some (csv_header, main_rows) else None),
          standard_output = final_counters 0 0 main_rows,
          standard_error = []\<rparr>"
proof -
  from main_rows_eq have mp: "main_passes = Inr (main_rows, final_counters 0 0 main_rows)"
    by blast
  show ?thesis unfolding main_def by (simp add: mp case_prod_beta)
qed

text \<open>
  Claim C4, as the code has it. The two counters are shared by all passes, so within a
  pass the sum of the counters after the row of machine \<open>i\<close> is the sum on entry to the
  pass plus \<open>i + 1\<close>; it is \<open>i + 1\<close> only when the pass starts from zero, which is the
  pass for one state. The halting counter after a row is at least what it was before that
  row. Both are stated for counters that are not negative on entry and rows up to which
  the sum stays below \<open>2 ^ 31\<close>, where an \<^verbatim>\<open>int\<close> cannot have overflowed; nothing is said
  about later rows. Each pass returns \<^verbatim>\<open>kUniqueMachineCount\<close> rows, and row \<open>i\<close> carries
  machine identifier \<open>i\<close>.
\<close>

theorem counters_within_pass:
  assumes "N \<in> {1, 2, 3, 4}" and "0 \<le> sint h0" and "0 \<le> sint n0"
  shows "\<exists>rows h' n'. testMachines N 2 h0 n0 = Inr (rows, h', n')
     \<and> length rows = kUniqueMachineCount N 2
     \<and> (\<forall>i<length rows. sint h0 + sint n0 + int i + 1 < 2 ^ 31 \<longrightarrow>
           machine_id (rows ! i) = i
           \<and> sint (haltingCount_after (rows ! i)) + sint (nonHaltingCount_after (rows ! i))
               = sint h0 + sint n0 + int (machine_id (rows ! i)) + 1
           \<and> sint (halting_before h0 rows i) \<le> sint (haltingCount_after (rows ! i)))"
proof -
  from pass_states [OF assms(1)] have N0: "0 < N" and N: "N < kMaxStates" by simp_all
  from testMachines_rows [OF N0 N, of h0 n0] obtain rows where
    t: "testMachines N 2 h0 n0 = Inr (rows, final_counters h0 n0 rows)"
    and len: "length rows = kUniqueMachineCount N 2"
    and ch: "counters_chain h0 n0 rows"
    and ok: "\<forall>i<kUniqueMachineCount N 2. row_ok N i (rows ! i)" by blast
  from small_of_sint [OF assms(2)] have hu: "unat h0 < 2 ^ 31" and hs: "sint h0 = int (unat h0)"
    by simp_all
  from small_of_sint [OF assms(3)] have nu: "unat n0 < 2 ^ 31" and ns: "sint n0 = int (unat n0)"
    by simp_all
  have each: "machine_id (rows ! i) = i
           \<and> sint (haltingCount_after (rows ! i)) + sint (nonHaltingCount_after (rows ! i))
               = sint h0 + sint n0 + int (machine_id (rows ! i)) + 1
           \<and> sint (halting_before h0 rows i) \<le> sint (haltingCount_after (rows ! i))"
    if i: "i < length rows" and b: "sint h0 + sint n0 + int i + 1 < 2 ^ 31" for i
  proof -
    have id: "machine_id (rows ! i) = i" using ok i len by (simp add: row_ok_def)
    have "int (unat h0 + unat n0 + i + 1) < int (2 ^ 31)"
      using b unfolding hs ns by (simp del: of_nat_unat)
    then have bn: "unat h0 + unat n0 + i + 1 < 2 ^ 31" by (simp only: of_nat_less_iff)
    from chain_nat [OF ch i bn] have
      s: "unat (haltingCount_after (rows ! i)) + unat (nonHaltingCount_after (rows ! i))
           = unat h0 + unat n0 + i + 1"
      and m: "unat (halting_before h0 rows i) \<le> unat (haltingCount_after (rows ! i))"
      by simp_all
    have hi: "unat (haltingCount_after (rows ! i)) < 2 ^ 31" using s bn by linarith
    have ni: "unat (nonHaltingCount_after (rows ! i)) < 2 ^ 31" using s bn by linarith
    have bi: "unat (halting_before h0 rows i) < 2 ^ 31" using m hi by linarith
    have "int (unat (haltingCount_after (rows ! i))) + int (unat (nonHaltingCount_after (rows ! i)))
           = int (unat h0) + int (unat n0) + int i + 1" using s by linarith
    then have sum: "sint (haltingCount_after (rows ! i)) + sint (nonHaltingCount_after (rows ! i))
               = sint h0 + sint n0 + int (machine_id (rows ! i)) + 1"
      unfolding sint_of_small [OF hi] sint_of_small [OF ni] hs ns id .
    have mono: "sint (halting_before h0 rows i) \<le> sint (haltingCount_after (rows ! i))"
      unfolding sint_of_small [OF hi] sint_of_small [OF bi] using m by linarith
    show ?thesis using id sum mono by blast
  qed
  obtain h' n' where "final_counters h0 n0 rows = (h', n')" by (cases "final_counters h0 n0 rows")
  with t have "testMachines N 2 h0 n0 = Inr (rows, h', n')" by simp
  then show ?thesis using len each by blast
qed

text \<open>
  The sixth row of the first pass as an instance.
\<close>

theorem counters_within_pass_witness:
  "\<exists>rows h' n'. testMachines 1 2 0 0 = Inr (rows, h', n')
     \<and> length rows = 64
     \<and> machine_id (rows ! 5) = 5
     \<and> sint (haltingCount_after (rows ! 5)) + sint (nonHaltingCount_after (rows ! 5)) = 6
     \<and> sint (halting_before 0 rows 5) \<le> sint (haltingCount_after (rows ! 5))"
proof -
  have n: "(1 :: nat) \<in> {1, 2, 3, 4}" by simp
  have z: "0 \<le> sint (0 :: 32 word)" by simp
  from counters_within_pass [OF n z z] obtain rows h' n' where
    t: "testMachines 1 2 0 0 = Inr (rows, h', n')"
    and l: "length rows = kUniqueMachineCount 1 2"
    and e: "\<forall>i<length rows. sint (0 :: 32 word) + sint (0 :: 32 word) + int i + 1 < 2 ^ 31 \<longrightarrow>
           machine_id (rows ! i) = i
           \<and> sint (haltingCount_after (rows ! i)) + sint (nonHaltingCount_after (rows ! i))
               = sint (0 :: 32 word) + sint (0 :: 32 word) + int (machine_id (rows ! i)) + 1
           \<and> sint (halting_before 0 rows i) \<le> sint (haltingCount_after (rows ! i))"
    by blast
  have l64: "length rows = 64" using l by (simp only: count_values)
  then have "5 < length rows" by simp
  with e have "sint (0 :: 32 word) + sint (0 :: 32 word) + int 5 + 1 < 2 ^ 31 \<longrightarrow>
           machine_id (rows ! 5) = 5
           \<and> sint (haltingCount_after (rows ! 5)) + sint (nonHaltingCount_after (rows ! 5))
               = sint (0 :: 32 word) + sint (0 :: 32 word) + int (machine_id (rows ! 5)) + 1
           \<and> sint (halting_before 0 rows 5) \<le> sint (haltingCount_after (rows ! 5))"
    by blast
  then have "machine_id (rows ! 5) = 5
           \<and> sint (haltingCount_after (rows ! 5)) + sint (nonHaltingCount_after (rows ! 5)) = 6
           \<and> sint (halting_before 0 rows 5) \<le> sint (haltingCount_after (rows ! 5))"
    by simp
  then show ?thesis using t l64 by blast
qed

text \<open>
  The claim as first stated, with \<open>halting + non_halting = machine_id + 1\<close> on every row
  of the program, fails on the first row of the second pass: row 64 of the program has
  machine identifier 0 and counters that sum to 65.
\<close>

theorem second_pass_counters_counterexample:
  "64 < length main_rows
   \<and> state_count (main_rows ! 64) = 2
   \<and> machine_id (main_rows ! 64) = 0
   \<and> sint (haltingCount_after (main_rows ! 64)) + sint (nonHaltingCount_after (main_rows ! 64))
       = 65
   \<and> sint (haltingCount_after (main_rows ! 64)) + sint (nonHaltingCount_after (main_rows ! 64))
       \<noteq> int (machine_id (main_rows ! 64)) + 1"
proof -
  from main_rows_chain have ch: "counters_chain 0 0 main_rows"
    and len: "length main_rows = 25616798016" by simp_all
  have i: "64 < length main_rows" using len by simp
  have b: "unat (0 :: 32 word) + unat (0 :: 32 word) + 64 + 1 < 2 ^ 31" by simp
  from chain_nat [OF ch i b] have
    s: "unat (haltingCount_after (main_rows ! 64)) + unat (nonHaltingCount_after (main_rows ! 64))
          = 65" by simp
  have hi: "unat (haltingCount_after (main_rows ! 64)) < 2 ^ 31" using s by simp
  have ni: "unat (nonHaltingCount_after (main_rows ! 64)) < 2 ^ 31" using s by simp
  have "int (unat (haltingCount_after (main_rows ! 64)))
      + int (unat (nonHaltingCount_after (main_rows ! 64))) = 65" using s by linarith
  then have sum: "sint (haltingCount_after (main_rows ! 64))
      + sint (nonHaltingCount_after (main_rows ! 64)) = 65"
    unfolding sint_of_small [OF hi] sint_of_small [OF ni] .
  from main_rows_nth have "row_ok 2 0 (main_rows ! 64)" by simp
  then have st: "state_count (main_rows ! 64) = 2" and id: "machine_id (main_rows ! 64) = 0"
    by (simp_all add: row_ok_def)
  show ?thesis using i st id sum by simp
qed

text \<open>
  While fewer than \<open>2 ^ 31\<close> machines have been classified the divisor is the number
  of machines classified so far, which is at least 1.
\<close>

lemma divisor_before_overflow:
  assumes "i < length main_rows" and "i + 1 < 2 ^ 31"
  shows "probability_divisor (haltingCount_after (main_rows ! i))
           (nonHaltingCount_after (main_rows ! i)) = int i + 1"
proof -
  from main_rows_chain have ch: "counters_chain 0 0 main_rows" by simp
  have b: "unat (0 :: 32 word) + unat (0 :: 32 word) + i + 1 < 2 ^ 31" using assms(2) by simp
  from chain_nat [OF ch assms(1) b] have
    s: "unat (haltingCount_after (main_rows ! i)) + unat (nonHaltingCount_after (main_rows ! i))
          = i + 1" by simp
  have hi: "unat (haltingCount_after (main_rows ! i)) < 2 ^ 31" using s assms(2) by linarith
  have ni: "unat (nonHaltingCount_after (main_rows ! i)) < 2 ^ 31" using s assms(2) by linarith
  have "int (unat (haltingCount_after (main_rows ! i)))
      + int (unat (nonHaltingCount_after (main_rows ! i))) = int i + 1" using s by linarith
  then show ?thesis
    unfolding probability_divisor_def sint_of_small [OF hi] sint_of_small [OF ni] .
qed

text \<open>
  Claim C10 does not hold of the code. The program classifies 25616798016 machines and
  counts them in two \<^verbatim>\<open>int\<close> counters. After the row with index \<open>2 ^ 32 - 1\<close>, in the pass
  for four states, the two counters sum to zero modulo \<open>2 ^ 32\<close>, so the divisor of the
  halting probability computed for that row is not positive.
\<close>

theorem divisor_not_positive_after_2_32_rows:
  "4294967295 < length main_rows
   \<and> state_count (main_rows ! 4294967295) = 4
   \<and> machine_id (main_rows ! 4294967295) = 4278169279
   \<and> probability_divisor (haltingCount_after (main_rows ! 4294967295))
         (nonHaltingCount_after (main_rows ! 4294967295)) < 1"
proof -
  from main_rows_chain have ch: "counters_chain 0 0 main_rows"
    and len: "length main_rows = 25616798016" by simp_all
  have i: "4294967295 < length main_rows" using len by simp
  from chain_sum_word [OF ch i] have
    "haltingCount_after (main_rows ! 4294967295) + nonHaltingCount_after (main_rows ! 4294967295)
       = 0" by simp
  then have d: "probability_divisor (haltingCount_after (main_rows ! 4294967295))
         (nonHaltingCount_after (main_rows ! 4294967295)) < 1"
    unfolding probability_divisor_def by (rule divisor_of_zero_sum)
  from main_rows_nth have "row_ok 4 4278169279 (main_rows ! 4294967295)" by simp
  then have st: "state_count (main_rows ! 4294967295) = 4"
    and id: "machine_id (main_rows ! 4294967295) = 4278169279"
    by (simp_all add: row_ok_def)
  show ?thesis using i st id d by simp
qed

section \<open>A results file that does not open\<close>

text \<open>
  Claim C5, as the code has it. \<^verbatim>\<open>main\<close> never tests the stream. When the results file
  does not open, the program still runs every pass, writes nothing to the file and nothing
  to the standard error stream, prints the same two counters to the standard output as it
  does when the file opens, and returns 0.
\<close>

theorem unopened_file_exits_zero:
  "exit_status False = Some 0 \<and> diagnostics False = Some []
   \<and> (\<exists>r. main False = Inr r \<and> exit_code r = 0 \<and> results_file r = None
         \<and> standard_error r = [] \<and> standard_output r = final_counters 0 0 main_rows)
   \<and> (\<exists>r. main True = Inr r \<and> exit_code r = 0
         \<and> results_file r = Some (csv_header, main_rows)
         \<and> standard_error r = [] \<and> standard_output r = final_counters 0 0 main_rows)"
  by (simp add: exit_status_def diagnostics_def main_result)

text \<open>
  The claim as first stated, a non-zero exit code and a diagnostic when the file does not
  open, fails: the exit code is 0 and no diagnostic is written.
\<close>

theorem unopened_file_counterexample:
  "exit_status False = Some 0 \<and> diagnostics False = Some []"
  by (simp add: exit_status_def diagnostics_def main_result)

end
